theory Spec2Isabelle
  imports Main "HOL-Library.Word" "HOL-Library.Multiset"
begin

section \<open>JavaScript strings\<close>

text \<open>
  A JavaScript string is a sequence of UTF-16 code units; \<open>length\<close>, indexing and
  \<open>slice\<close> all count code units. \<open>js\<close> writes an ASCII literal as such a string.
\<close>

type_synonym code_unit = "16 word"
type_synonym jsstring = "code_unit list"

definition js :: "string \<Rightarrow> jsstring" where
  "js s = map of_char s"

text \<open>
  \<open>String.prototype.slice\<close>: a negative index counts from the end, an index past the
  end is clamped to the length, and an empty result is returned when the bounds cross.
\<close>

definition clamp_index :: "nat \<Rightarrow> int \<Rightarrow> nat" where
  "clamp_index len i = (if i < 0 then nat (max (int len + i) 0) else min (nat i) len)"

definition slice :: "jsstring \<Rightarrow> int \<Rightarrow> int \<Rightarrow> jsstring" where
  "slice s b e =
     (let from = clamp_index (length s) b; to = clamp_index (length s) e
      in take (to - from) (drop from s))"

definition slice_from :: "jsstring \<Rightarrow> int \<Rightarrow> jsstring" where
  "slice_from s b = drop (clamp_index (length s) b) s"

text \<open>
  \<open>Array.prototype.sort\<close> with a comparator is a stable sort: \<open>a\<close> is placed before
  \<open>b\<close> when \<open>cmp a b < 0\<close>, and elements that compare equal keep their order.
\<close>

fun insert_by :: "('a \<Rightarrow> 'a \<Rightarrow> int) \<Rightarrow> 'a \<Rightarrow> 'a list \<Rightarrow> 'a list" where
  "insert_by cmp x [] = [x]"
| "insert_by cmp x (y # ys) =
     (if cmp x y \<le> 0 then x # y # ys else y # insert_by cmp x ys)"

definition sort_by :: "('a \<Rightarrow> 'a \<Rightarrow> int) \<Rightarrow> 'a list \<Rightarrow> 'a list" where
  "sort_by cmp xs = foldr (insert_by cmp) xs []"

section \<open>Workspace edit applier (src/file-edits.ts)\<close>

record LspPosition =
  line :: int
  character :: int

record LspRange =
  range_start :: LspPosition
  range_end :: LspPosition

record LspTextEdit =
  edit_range :: LspRange
  newText :: jsstring

text \<open>The \<open>{ start, end, newText }\<close> objects built by \<open>applyTextEditsToContent\<close>.\<close>

record NormalizedEdit =
  n_start :: int
  n_end :: int
  n_newText :: jsstring

datatype edit_error = InvalidEdit int int

definition newline :: code_unit where
  "newline = 10"

text \<open>The loop of \<open>computeLineOffsets\<close>, started at index \<open>i\<close>.\<close>

fun lineOffsetsFrom :: "nat \<Rightarrow> jsstring \<Rightarrow> nat list" where
  "lineOffsetsFrom i [] = []"
| "lineOffsetsFrom i (c # cs) =
     (if c = newline then (i + 1) # lineOffsetsFrom (i + 1) cs
      else lineOffsetsFrom (i + 1) cs)"

definition computeLineOffsets :: "jsstring \<Rightarrow> nat list" where
  "computeLineOffsets text = 0 # lineOffsetsFrom 0 text"

definition offsetAt :: "nat list \<Rightarrow> LspPosition \<Rightarrow> jsstring \<Rightarrow> int" where
  "offsetAt lineOffsets position text =
     (let ln = max 0 (line position);
          ch = max 0 (character position)
      in if ln \<ge> int (length lineOffsets) then int (length text)
         else min (int (length text)) (int (lineOffsets ! nat ln) + ch))"

definition normalizeEdit :: "jsstring \<Rightarrow> nat list \<Rightarrow> LspTextEdit \<Rightarrow> NormalizedEdit" where
  "normalizeEdit content lineOffsets edit =
     \<lparr> n_start = offsetAt lineOffsets (range_start (edit_range edit)) content,
       n_end = offsetAt lineOffsets (range_end (edit_range edit)) content,
       n_newText = newText edit \<rparr>"

text \<open>The comparator \<open>(a, b) => b.start - a.start || b.end - a.end\<close>.\<close>

definition editOrder :: "NormalizedEdit \<Rightarrow> NormalizedEdit \<Rightarrow> int" where
  "editOrder a b =
     (if n_start b - n_start a \<noteq> 0 then n_start b - n_start a else n_end b - n_end a)"

definition normalizeEdits :: "jsstring \<Rightarrow> LspTextEdit list \<Rightarrow> NormalizedEdit list" where
  "normalizeEdits content edits =
     sort_by editOrder (map (normalizeEdit content (computeLineOffsets content)) edits)"

definition splice :: "jsstring \<Rightarrow> NormalizedEdit \<Rightarrow> jsstring" where
  "splice out edit = slice out 0 (n_start edit) @ n_newText edit @ slice_from out (n_end edit)"

text \<open>The \<open>for (const edit of normalized)\<close> loop; the \<open>throw\<close> is the \<open>Inl\<close> result.\<close>

fun applyNormalized :: "jsstring \<Rightarrow> NormalizedEdit list \<Rightarrow> edit_error + jsstring" where
  "applyNormalized out [] = Inr out"
| "applyNormalized out (edit # rest) =
     (if n_start edit > n_end edit then Inl (InvalidEdit (n_start edit) (n_end edit))
      else applyNormalized (splice out edit) rest)"

definition applyTextEditsToContent :: "jsstring \<Rightarrow> LspTextEdit list \<Rightarrow> edit_error + jsstring" where
  "applyTextEditsToContent content edits =
     (if length edits = 0 then Inr content
      else applyNormalized content (normalizeEdits content edits))"


definition mkEdit :: "int \<Rightarrow> int \<Rightarrow> int \<Rightarrow> int \<Rightarrow> string \<Rightarrow> LspTextEdit" where
  "mkEdit l1 c1 l2 c2 s =
     \<lparr> edit_range = \<lparr> range_start = \<lparr> line = l1, character = c1 \<rparr>,
                      range_end = \<lparr> line = l2, character = c2 \<rparr> \<rparr>,
       newText = js s \<rparr>"




text \<open>
  The content is read from and written to disk as UTF-8. \<open>utf8Length\<close> is the number of
  bytes that encoding takes for a string: one byte for a code unit below 0x80, two below
  0x800, four for a surrogate pair and three for every other code unit (a lone surrogate
  is written as U+FFFD). The byte offset of a string index is the UTF-8 length of the
  units before it.
\<close>

definition isHighSurrogate :: "code_unit \<Rightarrow> bool" where
  "isHighSurrogate c = (0xD800 \<le> c \<and> c \<le> 0xDBFF)"

definition isLowSurrogate :: "code_unit \<Rightarrow> bool" where
  "isLowSurrogate c = (0xDC00 \<le> c \<and> c \<le> 0xDFFF)"

fun utf8Length :: "jsstring \<Rightarrow> nat" where
  "utf8Length [] = 0"
| "utf8Length [c] = (if c < 0x80 then 1 else if c < 0x800 then 2 else 3)"
| "utf8Length (c # d # cs) =
     (if c < 0x80 then 1 + utf8Length (d # cs)
      else if c < 0x800 then 2 + utf8Length (d # cs)
      else if isHighSurrogate c \<and> isLowSurrogate d then 4 + utf8Length cs
      else 3 + utf8Length (d # cs))"

definition byteOffset :: "jsstring \<Rightarrow> int \<Rightarrow> int" where
  "byteOffset content i = int (utf8Length (take (nat i) content))"

text \<open>
  Reference semantics of a set of edits, every range read in the coordinates of the
  original content: \<open>replaceRanges b content es\<close> is the content up to index \<open>b\<close> in
  which the range of every edit of \<open>es\<close> is replaced by the edit's new text. The edits
  are listed from the last range to the first, and \<open>disjointDescending b es\<close> says that
  they are well formed, lie below \<open>b\<close> and do not overlap: each ends where the one listed
  before it starts, or earlier.
\<close>

fun replaceRanges :: "nat \<Rightarrow> jsstring \<Rightarrow> NormalizedEdit list \<Rightarrow> jsstring" where
  "replaceRanges b content [] = take b content"
| "replaceRanges b content (e # es) =
     replaceRanges (nat (n_start e)) content es
       @ n_newText e
       @ take (b - nat (n_end e)) (drop (nat (n_end e)) content)"

fun disjointDescending :: "nat \<Rightarrow> NormalizedEdit list \<Rightarrow> bool" where
  "disjointDescending b [] = True"
| "disjointDescending b (e # es) =
     (0 \<le> n_start e \<and> n_start e \<le> n_end e \<and> n_end e \<le> int b
      \<and> disjointDescending (nat (n_start e)) es)"

section \<open>Protocol data (src/types.ts, src/lsp/client.ts)\<close>

text \<open>
  Values that arrive from \<open>JSON.parse\<close>. An object is the list of its own properties
  (keys distinct, in insertion order).
\<close>

datatype json =
    JNull
  | JBool bool
  | JNum int
  | JStr jsstring
  | JArr "json list"
  | JObj "(jsstring \<times> json) list"

text \<open>\<open>LspId = number | string\<close>.\<close>

datatype LspId = IdNum int | IdStr jsstring

record LspError =
  err_code :: int
  err_message :: jsstring

text \<open>
  \<open>LspMessage\<close>: every field but \<open>jsonrpc\<close> is optional; \<open>None\<close> is \<open>undefined\<close>.
\<close>

record LspMessage =
  msg_id :: "LspId option"
  msg_method :: "jsstring option"
  msg_params :: "json option"
  msg_result :: "json option"
  msg_error :: "LspError option"

record EnriLspServerConfig =
  name :: "jsstring option"
  extensions :: "jsstring list"
  command :: "jsstring list"
  rootDir :: "jsstring option"
  initializationOptions :: "json option"
  warmupMs :: "int option"

text \<open>
  \<open>ServerState\<close>. The child process is identified by a handle; the readiness promise
  and its resolver are represented by the \<open>initialized\<close> flag they accompany.
\<close>

record ServerState =
  process :: nat
  config :: EnriLspServerConfig
  initialized :: bool
  capabilities :: "(jsstring \<times> json) list"
  openFiles :: "jsstring list"
  fileVersions :: "(jsstring \<times> int) list"
  diagnostics :: "(jsstring \<times> json) list"
  buffer :: string
  workspaceRoot :: jsstring

text \<open>The requests the client sends, and the timeout literal passed at each call site.\<close>

datatype lsp_request = Initialize | DocumentSymbol | Definition | References | Rename

fun requestMethod :: "lsp_request \<Rightarrow> jsstring" where
  "requestMethod Initialize = js ''initialize''"
| "requestMethod DocumentSymbol = js ''textDocument/documentSymbol''"
| "requestMethod Definition = js ''textDocument/definition''"
| "requestMethod References = js ''textDocument/references''"
| "requestMethod Rename = js ''textDocument/rename''"

fun requestTimeoutMs :: "lsp_request \<Rightarrow> nat" where
  "requestTimeoutMs Initialize = 30000"
| "requestTimeoutMs DocumentSymbol = 30000"
| "requestTimeoutMs Definition = 30000"
| "requestTimeoutMs References = 30000"
| "requestTimeoutMs Rename = 60000"

text \<open>The capability key tested before each request of the dispatcher.\<close>

fun requestCapability :: "lsp_request \<Rightarrow> jsstring" where
  "requestCapability Initialize = js ''''"
| "requestCapability DocumentSymbol = js ''documentSymbolProvider''"
| "requestCapability Definition = js ''definitionProvider''"
| "requestCapability References = js ''referencesProvider''"
| "requestCapability Rename = js ''renameProvider''"

text \<open>
  \<open>serverAdvertisedCapability\<close>: \<open>map_of caps key = None\<close> is \<open>raw === undefined\<close>.
\<close>

definition serverAdvertisedCapability :: "ServerState \<Rightarrow> jsstring \<Rightarrow> bool" where
  "serverAdvertisedCapability state key =
     (let caps = capabilities state;
          hasCaps = (length caps > 0)
      in if \<not> hasCaps then True
         else (case map_of caps key of
                 None \<Rightarrow> False
               | Some JNull \<Rightarrow> False
               | Some (JBool b) \<Rightarrow> b
               | Some _ \<Rightarrow> True))"

text \<open>The state \<open>startServer\<close> creates, with the capabilities an \<open>initialize\<close> reply stored.\<close>

definition stateWithCapabilities :: "(jsstring \<times> json) list \<Rightarrow> ServerState" where
  "stateWithCapabilities caps =
     \<lparr> process = 0,
       config = \<lparr> name = None, extensions = [], command = [], rootDir = None,
                  initializationOptions = None, warmupMs = None \<rparr>,
       initialized = True, capabilities = caps, openFiles = [], fileVersions = [],
       diagnostics = [], buffer = [], workspaceRoot = [] \<rparr>"

section \<open>Request correlation (src/lsp/client.ts: sendRequest, handleMessage)\<close>

text \<open>
  How the promise returned by \<open>sendRequest\<close> is settled: \<open>resolvePromise(value)\<close>,
  \<open>rejectPromise\<close> with an error response's message, or \<open>rejectPromise\<close> with the
  timeout error (which names the method and the timeout).
\<close>

datatype settlement =
    Resolved "json option"
  | RejectedError jsstring
  | RejectedTimeout jsstring nat

text \<open>
  \<open>PendingRequest\<close>: the \<open>resolve\<close> and \<open>reject\<close> closures capture the promise they
  settle and the timer they clear. A request's promise and timer are named by its id.
\<close>

record PendingRequest =
  pr_promise :: int
  pr_timer :: int

datatype log_line =
    UnhandledServerRequest jsstring
  | ServerLogMessage jsstring
  | ParseFailure

text \<open>
  The fields of \<open>LspClient\<close> that correlate requests, together with what the client has
  done to the outside: the timers armed with \<open>setTimeout\<close> (each with the method and
  timeout its callback captured), every call of \<open>resolvePromise\<close> or \<open>rejectPromise\<close> in
  order, every message written to a child's stdin, and the lines written to stderr.
\<close>

record LspClient =
  nextId :: int
  pendingRequests :: "LspId \<rightharpoonup> PendingRequest"
  armedTimers :: "int \<rightharpoonup> (jsstring \<times> nat)"
  settled :: "(int \<times> settlement) list"
  written :: "(nat \<times> LspMessage) list"
  stderrLog :: "log_line list"

definition newLspClient :: LspClient where
  "newLspClient =
     \<lparr> nextId = 1, pendingRequests = Map.empty, armedTimers = Map.empty,
       settled = [], written = [], stderrLog = [] \<rparr>"

text \<open>\<open>sendMessage\<close>, as an entry in the list of messages written to process \<open>proc\<close>.\<close>

definition sendMessage :: "LspClient \<Rightarrow> nat \<Rightarrow> LspMessage \<Rightarrow> LspClient" where
  "sendMessage client proc message = client\<lparr> written := written client @ [(proc, message)] \<rparr>"

text \<open>
  \<open>sendRequest\<close>: takes the next id, arms the timer, registers the pending entry and
  writes the request. The result is the id (which names the returned promise).
\<close>

definition sendRequest ::
  "LspClient \<Rightarrow> nat \<Rightarrow> jsstring \<Rightarrow> json option \<Rightarrow> nat \<Rightarrow> int \<times> LspClient" where
  "sendRequest client proc method params timeoutMs =
     (let id = nextId client;
          client1 = client\<lparr> nextId := id + 1 \<rparr>;
          message = \<lparr> msg_id = Some (IdNum id), msg_method = Some method,
                      msg_params = params, msg_result = None, msg_error = None \<rparr>;
          client2 = client1\<lparr> armedTimers := (armedTimers client1)(id \<mapsto> (method, timeoutMs)) \<rparr>;
          client3 = client2\<lparr> pendingRequests :=
                      (pendingRequests client2)(IdNum id \<mapsto> \<lparr> pr_promise = id, pr_timer = id \<rparr>) \<rparr>
      in (id, sendMessage client3 proc message))"

definition sendNotification :: "LspClient \<Rightarrow> nat \<Rightarrow> jsstring \<Rightarrow> json option \<Rightarrow> LspClient" where
  "sendNotification client proc method params =
     sendMessage client proc
       \<lparr> msg_id = None, msg_method = Some method, msg_params = params,
         msg_result = None, msg_error = None \<rparr>"

text \<open>
  The callback given to \<open>setTimeout\<close>, run when timer \<open>h\<close> expires. A timer that was
  cleared, or has already run, does not run.
\<close>

definition timerFires :: "LspClient \<Rightarrow> int \<Rightarrow> LspClient" where
  "timerFires client h =
     (case armedTimers client h of
        None \<Rightarrow> client
      | Some (method, timeoutMs) \<Rightarrow>
          client\<lparr> armedTimers := (armedTimers client)(h := None),
                  pendingRequests := (pendingRequests client)(IdNum h := None),
                  settled := settled client @ [(h, RejectedTimeout method timeoutMs)] \<rparr>)"

text \<open>The closures \<open>pending.resolve\<close> and \<open>pending.reject\<close>: clear the timer, settle.\<close>

definition pendingResolve :: "LspClient \<Rightarrow> PendingRequest \<Rightarrow> json option \<Rightarrow> LspClient" where
  "pendingResolve client pending v =
     client\<lparr> armedTimers := (armedTimers client)(pr_timer pending := None),
             settled := settled client @ [(pr_promise pending, Resolved v)] \<rparr>"

definition pendingReject :: "LspClient \<Rightarrow> PendingRequest \<Rightarrow> jsstring \<Rightarrow> LspClient" where
  "pendingReject client pending reason =
     client\<lparr> armedTimers := (armedTimers client)(pr_timer pending := None),
             settled := settled client @ [(pr_promise pending, RejectedError reason)] \<rparr>"

text \<open>JavaScript truthiness of a parsed value, and of an optional string.\<close>

fun truthy :: "json \<Rightarrow> bool" where
  "truthy JNull = False"
| "truthy (JBool b) = b"
| "truthy (JNum n) = (n \<noteq> 0)"
| "truthy (JStr s) = (s \<noteq> [])"
| "truthy (JArr _) = True"
| "truthy (JObj _) = True"

fun truthyString :: "jsstring option \<Rightarrow> bool" where
  "truthyString None = False"
| "truthyString (Some s) = (s \<noteq> [])"

text \<open>
  \<open>handleServerRequest\<close>: the result sent back, and whether the method was unhandled
  (which is logged). \<open>pathToUri\<close> is Node's \<open>pathToFileURL\<close>, a parameter here.
\<close>

definition handleServerRequest ::
  "(jsstring \<Rightarrow> jsstring) \<Rightarrow> jsstring \<Rightarrow> json option \<Rightarrow> ServerState \<Rightarrow> json \<times> bool" where
  "handleServerRequest pathToUri method params state =
     (if method = js ''window/workDoneProgress/create'' then (JNull, False)
      else if method = js ''workspace/configuration'' then
        (let count = (case params of
                        Some (JObj props) \<Rightarrow>
                          (case map_of props (js ''items'') of
                             Some (JArr items) \<Rightarrow> length items
                           | _ \<Rightarrow> 0)
                      | _ \<Rightarrow> 0)
         in (JArr (replicate count (JObj [])), False))
      else if method = js ''workspace/workspaceFolders'' then
        (JArr [JObj [(js ''uri'', JStr (pathToUri (workspaceRoot state))),
                     (js ''name'', JStr (js ''workspace''))]], False)
      else if method = js ''client/registerCapability''
            \<or> method = js ''client/unregisterCapability'' then (JNull, False)
      else if method = js ''workspace/applyEdit'' then
        (JObj [(js ''applied'', JBool False),
               (js ''failureReason'',
                JStr (js ''EnriLSP does not apply edits via LSP requests''))], False)
      else if method = js ''window/showMessageRequest'' then (JNull, False)
      else (JNull, True))"

text \<open>\<open>Map.prototype.set\<close> on the diagnostics map of a server state.\<close>

definition setDiagnostics :: "ServerState \<Rightarrow> jsstring \<Rightarrow> json \<Rightarrow> ServerState" where
  "setDiagnostics state uri diags =
     state\<lparr> diagnostics := (uri, diags) # filter (\<lambda>(u, _). u \<noteq> uri) (diagnostics state) \<rparr>"

text \<open>The pending entry a message's id refers to, if the message has an id.\<close>

fun pendingFor :: "LspClient \<Rightarrow> LspId option \<Rightarrow> PendingRequest option" where
  "pendingFor client None = None"
| "pendingFor client (Some i) = pendingRequests client i"

fun deletePending :: "LspClient \<Rightarrow> LspId option \<Rightarrow> LspClient" where
  "deletePending client None = client"
| "deletePending client (Some i) =
     client\<lparr> pendingRequests := (pendingRequests client)(i := None) \<rparr>"

text \<open>
  The second branch of \<open>handleMessage\<close>: a request of the server is answered on the
  stdin of the process that sent it.
\<close>

definition answerServerRequest ::
  "(jsstring \<Rightarrow> jsstring) \<Rightarrow> LspClient \<Rightarrow> ServerState \<Rightarrow> LspMessage \<Rightarrow> LspClient" where
  "answerServerRequest pathToUri client state message =
     (let method = the (msg_method message);
          (result, unhandled) =
             handleServerRequest pathToUri method (msg_params message) state;
          client1 = (if unhandled
                     then client\<lparr> stderrLog := stderrLog client @ [UnhandledServerRequest method] \<rparr>
                     else client)
      in sendMessage client1 (process state)
           \<lparr> msg_id = msg_id message, msg_method = None, msg_params = None,
             msg_result = Some result, msg_error = None \<rparr>)"

text \<open>
  The \<open>textDocument/publishDiagnostics\<close> branch: with a truthy \<open>params.uri\<close> the
  diagnostics of that document are replaced by \<open>params.diagnostics ?? []\<close>.
\<close>

definition publishDiagnostics :: "ServerState \<Rightarrow> json option \<Rightarrow> ServerState" where
  "publishDiagnostics state params =
     (case params of
        Some (JObj props) \<Rightarrow>
          (case map_of props (js ''uri'') of
             Some (JStr uri) \<Rightarrow>
               (if uri \<noteq> [] then
                  setDiagnostics state uri
                    (case map_of props (js ''diagnostics'') of
                       None \<Rightarrow> JArr []
                     | Some JNull \<Rightarrow> JArr []
                     | Some d \<Rightarrow> d)
                else state)
           | _ \<Rightarrow> state)
      | _ \<Rightarrow> state)"

text \<open>The notification branches of \<open>handleMessage\<close>.\<close>

definition handleNotification ::
  "LspClient \<Rightarrow> ServerState \<Rightarrow> LspMessage \<Rightarrow> LspClient \<times> ServerState" where
  "handleNotification client state message =
     (if \<not> truthyString (msg_method message) then (client, state)
      else if the (msg_method message) = js ''textDocument/publishDiagnostics'' then
        (client, publishDiagnostics state (msg_params message))
      else if the (msg_method message) = js ''window/logMessage''
            \<or> the (msg_method message) = js ''window/showMessage'' then
        (client\<lparr> stderrLog := stderrLog client @ [ServerLogMessage (the (msg_method message))] \<rparr>,
         state)
      else (client, state))"

text \<open>
  \<open>handleMessage\<close>, in the order of the source: a response to a pending request; a
  request of the server, which is answered; then notifications.
\<close>

definition handleMessage ::
  "(jsstring \<Rightarrow> jsstring) \<Rightarrow> LspClient \<Rightarrow> ServerState \<Rightarrow> LspMessage \<Rightarrow> LspClient \<times> ServerState" where
  "handleMessage pathToUri client state message =
     (case pendingFor client (msg_id message) of
        Some pending \<Rightarrow>
          (let client1 = deletePending client (msg_id message)
           in (case msg_error message of
                 Some e \<Rightarrow> (pendingReject client1 pending (err_message e), state)
               | None \<Rightarrow> (pendingResolve client1 pending (msg_result message), state)))
      | None \<Rightarrow>
          (if msg_id message \<noteq> None \<and> truthyString (msg_method message) then
             (answerServerRequest pathToUri client state message, state)
           else handleNotification client state message))"

text \<open>
  What can happen to the client, in any order: a request is sent to a process, an armed
  timer expires, or a message from a server is handled.
\<close>

datatype client_event =
    SendRequest nat jsstring "json option" nat
  | TimerFires int
  | HandleMessage ServerState LspMessage

fun clientStep :: "(jsstring \<Rightarrow> jsstring) \<Rightarrow> LspClient \<Rightarrow> client_event \<Rightarrow> LspClient" where
  "clientStep pathToUri client (SendRequest proc method params timeoutMs) =
     snd (sendRequest client proc method params timeoutMs)"
| "clientStep pathToUri client (TimerFires h) = timerFires client h"
| "clientStep pathToUri client (HandleMessage state message) =
     fst (handleMessage pathToUri client state message)"

definition clientRun :: "(jsstring \<Rightarrow> jsstring) \<Rightarrow> LspClient \<Rightarrow> client_event list \<Rightarrow> LspClient" where
  "clientRun pathToUri client events = foldl (clientStep pathToUri) client events"

text \<open>The settlements of the promise of request \<open>i\<close>.\<close>

definition settlementsOf :: "LspClient \<Rightarrow> int \<Rightarrow> settlement list" where
  "settlementsOf client i = map snd (filter (\<lambda>(p, _). p = i) (settled client))"

definition response :: "LspId \<Rightarrow> json \<Rightarrow> LspMessage" where
  "response i v =
     \<lparr> msg_id = Some i, msg_method = None, msg_params = None,
       msg_result = Some v, msg_error = None \<rparr>"

definition errorResponse :: "LspId \<Rightarrow> jsstring \<Rightarrow> LspMessage" where
  "errorResponse i text =
     \<lparr> msg_id = Some i, msg_method = None, msg_params = None, msg_result = None,
       msg_error = Some \<lparr> err_code = 0, err_message = text \<rparr> \<rparr>"

text \<open>
  The state of request \<open>i\<close>: either still pending, with its timer armed and its promise
  unsettled, or no longer pending, with its timer disarmed and its promise settled by
  exactly one call.
\<close>

definition awaiting :: "LspClient \<Rightarrow> int \<Rightarrow> bool" where
  "awaiting client i \<longleftrightarrow>
     pendingRequests client (IdNum i) \<noteq> None \<and> armedTimers client i \<noteq> None \<and>
     settlementsOf client i = []"

definition settledOnce :: "LspClient \<Rightarrow> int \<Rightarrow> bool" where
  "settledOnce client i \<longleftrightarrow>
     pendingRequests client (IdNum i) = None \<and> armedTimers client i = None \<and>
     length (settlementsOf client i) = 1"

text \<open>
  The invariant of the correlation state: ids are handed out below \<open>nextId\<close>; a pending
  entry sits under its own numeric id; a timer is armed exactly while its request is
  pending; and a request's promise is unsettled while pending and settled exactly once
  afterwards.
\<close>

definition correlationInv :: "LspClient \<Rightarrow> bool" where
  "correlationInv c \<longleftrightarrow>
     1 \<le> nextId c \<and>
     (\<forall>k p. pendingRequests c k = Some p \<longrightarrow>
        (\<exists>i. k = IdNum i \<and> pr_promise p = i \<and> pr_timer p = i \<and> 1 \<le> i \<and> i < nextId c)) \<and>
     (\<forall>i. armedTimers c i \<noteq> None \<longleftrightarrow> pendingRequests c (IdNum i) \<noteq> None) \<and>
     (\<forall>i. pendingRequests c (IdNum i) \<noteq> None \<longrightarrow> settlementsOf c i = []) \<and>
     (\<forall>i. pendingRequests c (IdNum i) = None \<and> 1 \<le> i \<and> i < nextId c \<longrightarrow>
        length (settlementsOf c i) = 1) \<and>
     (\<forall>i. \<not> (1 \<le> i \<and> i < nextId c) \<longrightarrow> settlementsOf c i = [])"

section \<open>Frame codec (src/lsp/client.ts: sendMessage, drainServerBuffer)\<close>

text \<open>
  A \<open>Buffer\<close> is a sequence of bytes, modelled as \<open>string\<close> (a \<open>char\<close> is one byte).
\<close>

definition separator :: string where
  "separator = [CHR 0x0D, CHR 0x0A, CHR 0x0D, CHR 0x0A]"

definition digitChar :: "nat \<Rightarrow> char" where
  "digitChar d = char_of (48 + d)"

text \<open>The decimal digits of a non-negative integer, as a template literal renders it.\<close>

fun decimal :: "nat \<Rightarrow> string" where
  "decimal n = (if n < 10 then [digitChar n] else decimal (n div 10) @ [digitChar (n mod 10)])"

declare decimal.simps [simp del]

text \<open>
  \<open>sendMessage\<close>: the bytes written to the child's stdin. \<open>content\<close> is the UTF-8
  encoding of \<open>JSON.stringify(message)\<close>, whose length is what
  \<open>Buffer.byteLength(content, "utf8")\<close> returns.
\<close>

definition frame :: "string \<Rightarrow> string" where
  "frame content = ''Content-Length: '' @ decimal (length content) @ separator @ content"

definition encodeMessage :: "('m \<Rightarrow> string) \<Rightarrow> 'm \<Rightarrow> string" where
  "encodeMessage stringify message = frame (stringify message)"

text \<open>\<open>Buffer.prototype.indexOf\<close>: the first position at which \<open>sep\<close> occurs.\<close>

fun indexOf :: "string \<Rightarrow> string \<Rightarrow> nat option" where
  "indexOf sep [] = (if sep = [] then Some 0 else None)"
| "indexOf sep (c # cs) =
     (if take (length sep) (c # cs) = sep then Some 0
      else map_option Suc (indexOf sep cs))"

text \<open>\<open>toString("ascii")\<close> clears the high bit of every byte.\<close>

definition asciiDecode :: "string \<Rightarrow> string" where
  "asciiDecode bytes = map (\<lambda>c. char_of (of_char c mod (128::nat))) bytes"

definition lowerAscii :: "char \<Rightarrow> char" where
  "lowerAscii c =
     (if 65 \<le> (of_char c :: nat) \<and> (of_char c :: nat) \<le> 90
      then char_of (of_char c + (32::nat)) else c)"

text \<open>The characters \<open>\s\<close> and \<open>\d\<close> match among the 128 ASCII characters.\<close>

definition isSpace :: "char \<Rightarrow> bool" where
  "isSpace c \<longleftrightarrow> (of_char c :: nat) \<in> {9, 10, 11, 12, 13, 32}"

definition isDigit :: "char \<Rightarrow> bool" where
  "isDigit c \<longleftrightarrow> 48 \<le> (of_char c :: nat) \<and> (of_char c :: nat) \<le> 57"

text \<open>
  A match of \<open>/Content-Length:\s*(\d+)/i\<close> that starts at the beginning of \<open>s\<close>: the
  result is the captured group. \<open>\s*\<close> and \<open>\d+\<close> are greedy, and backtracking cannot
  help since no character is both a space and a digit.
\<close>

definition matchHere :: "string \<Rightarrow> string option" where
  "matchHere s =
     (if map lowerAscii (take 15 s) = ''content-length:'' then
        (let digits = takeWhile isDigit (dropWhile isSpace (drop 15 s))
         in if digits = [] then None else Some digits)
      else None)"

text \<open>\<open>RegExp.prototype.exec\<close> without the global flag: the leftmost match.\<close>

fun regexExec :: "string \<Rightarrow> string option" where
  "regexExec [] = matchHere []"
| "regexExec (c # cs) =
     (case matchHere (c # cs) of Some digits \<Rightarrow> Some digits | None \<Rightarrow> regexExec cs)"

text \<open>
  \<open>Number.parseInt(digits, 10)\<close> on a string of decimal digits. The value is exact
  here; JavaScript rounds above \<open>2^53\<close>, which no buffer length reaches.
\<close>

definition parseInt :: "string \<Rightarrow> nat" where
  "parseInt digits = foldl (\<lambda>acc c. 10 * acc + (of_char c - 48)) 0 digits"

text \<open>The declared length of a header text, if the header has one.\<close>

definition contentLength :: "string \<Rightarrow> nat option" where
  "contentLength headerText = map_option parseInt (regexExec headerText)"

text \<open>
  \<open>drainServerBuffer\<close>: the loop of the source, returning the buffer that is left and
  the bodies handed to \<open>JSON.parse\<close> (and then to \<open>handleMessage\<close>), in order.
\<close>

function drainServerBuffer :: "string \<Rightarrow> string \<times> string list" where
  "drainServerBuffer buf =
     (case indexOf separator buf of
        None \<Rightarrow> (buf, [])
      | Some headerEnd \<Rightarrow>
          (case contentLength (asciiDecode (take headerEnd buf)) of
             None \<Rightarrow> drainServerBuffer (drop (headerEnd + length separator) buf)
           | Some len \<Rightarrow>
               (if length buf < headerEnd + length separator + len then (buf, [])
                else (case drainServerBuffer (drop (headerEnd + length separator + len) buf) of
                        (rest, bodies) \<Rightarrow>
                          (rest, take len (drop (headerEnd + length separator) buf) # bodies)))))"
  by pat_completeness auto
termination
proof (relation "measure length")
  show "wf (measure length)" by simp
next
  fix buf :: string and headerEnd
  assume "indexOf separator buf = Some headerEnd"
  then have "buf \<noteq> []" by (auto simp: separator_def split: if_splits)
  then show "(drop (headerEnd + length separator) buf, buf) \<in> measure length"
    by (simp add: separator_def)
next
  fix buf :: string and headerEnd len
  assume "indexOf separator buf = Some headerEnd"
  then have "buf \<noteq> []" by (auto simp: separator_def split: if_splits)
  then show "(drop (headerEnd + length separator + len) buf, buf) \<in> measure length"
    by (simp add: separator_def)
qed

declare drainServerBuffer.simps [simp del]

text \<open>
  The \<open>"data"\<close> handler of the child's stdout: append the chunk to the buffer and drain.
  The state is the buffer and the bodies delivered so far.
\<close>

definition onData :: "string \<times> string list \<Rightarrow> string \<Rightarrow> string \<times> string list" where
  "onData st chunk =
     (case drainServerBuffer (fst st @ chunk) of
        (rest, bodies) \<Rightarrow> (rest, snd st @ bodies))"

definition receiveChunks :: "string list \<Rightarrow> string \<times> string list" where
  "receiveChunks chunks = foldl onData ([], []) chunks"

text \<open>The header line \<open>sendMessage\<close> writes for a body of \<open>n\<close> bytes.\<close>

definition headerOf :: "nat \<Rightarrow> string" where
  "headerOf n = ''Content-Length: '' @ decimal n"

text \<open>
  A buffer that holds no complete frame of the frames \<open>bs\<close> still to arrive: it is empty
  when nothing is to arrive, and otherwise a proper prefix of the next frame.
\<close>

definition waitingFor :: "string \<Rightarrow> string list \<Rightarrow> bool" where
  "waitingFor p bs \<longleftrightarrow>
     (bs = [] \<and> p = []) \<or> (\<exists>b bs' s. bs = b # bs' \<and> p @ s = frame b \<and> s \<noteq> [])"

section \<open>Router (src/lsp/client.ts: orderServerConfigsBySpecificity)\<close>

text \<open>
  The functions of Node's \<open>path\<close> module the router calls, with \<open>process.cwd()\<close>.
  They are not code of the repository, so the router is modelled over any such
  functions; \<open>posix\<close> below is their POSIX flavour.
\<close>

record path_api =
  p_cwd :: jsstring
  p_isAbsolute :: "jsstring \<Rightarrow> bool"
  p_normalize :: "jsstring \<Rightarrow> jsstring"
  p_resolve :: "jsstring \<Rightarrow> jsstring \<Rightarrow> jsstring"
  p_relative :: "jsstring \<Rightarrow> jsstring \<Rightarrow> jsstring"

text \<open>\<open>String.prototype.startsWith\<close>.\<close>

definition startsWith :: "jsstring \<Rightarrow> jsstring \<Rightarrow> bool" where
  "startsWith s pre \<longleftrightarrow> take (length pre) s = pre"

text \<open>
  \<open>normalize(isAbsolute(p) ? p : resolve(process.cwd(), p))\<close>, used for the file and
  for every root.
\<close>

definition absoluteNormalized :: "path_api \<Rightarrow> jsstring \<Rightarrow> jsstring" where
  "absoluteNormalized P p =
     p_normalize P (if p_isAbsolute P p then p else p_resolve P (p_cwd P) p)"

text \<open>The test \<open>isInside\<close> on the path of the file relative to the root.\<close>

definition isInside :: "path_api \<Rightarrow> jsstring \<Rightarrow> jsstring \<Rightarrow> bool" where
  "isInside P root absoluteFilePath =
     (let rel = p_relative P root absoluteFilePath
      in rel = [] \<or> (\<not> startsWith rel (js ''..'') \<and> \<not> p_isAbsolute P rel))"

text \<open>
  The score computed in the callback of \<open>servers.map\<close>. \<open>!server.rootDir\<close> holds for an
  absent and for an empty root.
\<close>

definition scoreServer :: "path_api \<Rightarrow> jsstring \<Rightarrow> EnriLspServerConfig \<Rightarrow> int" where
  "scoreServer P absoluteFilePath server =
     (case rootDir server of
        None \<Rightarrow> 0
      | Some dir \<Rightarrow>
          (if dir = [] then 0
           else (let root = absoluteNormalized P dir
                 in if isInside P root absoluteFilePath
                    then 10000 + int (length root) else - 1)))"

text \<open>The \<open>{ server, index, score }\<close> objects.\<close>

record Scored =
  s_server :: EnriLspServerConfig
  s_index :: nat
  s_score :: int

text \<open>The comparator \<open>(a, b) => b.score - a.score || a.index - b.index\<close>.\<close>

definition scoreOrder :: "Scored \<Rightarrow> Scored \<Rightarrow> int" where
  "scoreOrder a b =
     (if s_score b - s_score a \<noteq> 0 then s_score b - s_score a
      else int (s_index a) - int (s_index b))"

definition scoredServers :: "path_api \<Rightarrow> jsstring \<Rightarrow> EnriLspServerConfig list \<Rightarrow> Scored list" where
  "scoredServers P filePath servers =
     map (\<lambda>(server, index).
            \<lparr> s_server = server, s_index = index,
              s_score = scoreServer P (absoluteNormalized P filePath) server \<rparr>)
       (zip servers [0..<length servers])"

definition sortedScored :: "path_api \<Rightarrow> jsstring \<Rightarrow> EnriLspServerConfig list \<Rightarrow> Scored list" where
  "sortedScored P filePath servers = sort_by scoreOrder (scoredServers P filePath servers)"

definition orderServerConfigsBySpecificity ::
  "path_api \<Rightarrow> jsstring \<Rightarrow> EnriLspServerConfig list \<Rightarrow> EnriLspServerConfig list" where
  "orderServerConfigsBySpecificity P filePath servers =
     (if length servers \<le> 1 then servers
      else map s_server (sortedScored P filePath servers))"

subsection \<open>Node's \<open>path.posix\<close>\<close>

definition slash :: code_unit where
  "slash = 47"

definition dotSegment :: jsstring where
  "dotSegment = js ''.''"

definition dotdotSegment :: jsstring where
  "dotdotSegment = js ''..''"

text \<open>\<open>path.split("/")\<close>: the pieces between slashes, empty pieces included.\<close>

fun splitSlash :: "jsstring \<Rightarrow> jsstring list" where
  "splitSlash [] = [[]]"
| "splitSlash (c # cs) =
     (if c = slash then [] # splitSlash cs
      else (case splitSlash cs of
              [] \<Rightarrow> [[c]]
            | seg # segs \<Rightarrow> (c # seg) # segs))"

text \<open>\<open>segments.join("/")\<close>.\<close>

fun joinSlash :: "jsstring list \<Rightarrow> jsstring" where
  "joinSlash [] = []"
| "joinSlash [seg] = seg"
| "joinSlash (seg # segs) = seg @ slash # joinSlash segs"

text \<open>
  \<open>normalizeString\<close>, segment by segment: empty segments and \<open>.\<close> are dropped; \<open>..\<close>
  removes the last segment kept unless there is none or it is \<open>..\<close>, in which case
  \<open>..\<close> is kept when going above the root is allowed and dropped otherwise.
\<close>

fun normalizeSegments :: "bool \<Rightarrow> jsstring list \<Rightarrow> jsstring list \<Rightarrow> jsstring list" where
  "normalizeSegments allowAboveRoot res [] = res"
| "normalizeSegments allowAboveRoot res (seg # segs) =
     (if seg = [] \<or> seg = dotSegment then normalizeSegments allowAboveRoot res segs
      else if seg = dotdotSegment then
        (if res \<noteq> [] \<and> last res \<noteq> dotdotSegment
         then normalizeSegments allowAboveRoot (butlast res) segs
         else if allowAboveRoot then normalizeSegments allowAboveRoot (res @ [dotdotSegment]) segs
         else normalizeSegments allowAboveRoot res segs)
      else normalizeSegments allowAboveRoot (res @ [seg]) segs)"

definition posixIsAbsolute :: "jsstring \<Rightarrow> bool" where
  "posixIsAbsolute p \<longleftrightarrow> (case p of [] \<Rightarrow> False | c # _ \<Rightarrow> c = slash)"

definition posixNormalize :: "jsstring \<Rightarrow> jsstring" where
  "posixNormalize p =
     (if p = [] then dotSegment
      else (let isAbs = posixIsAbsolute p;
                trailingSeparator = (last p = slash);
                q = joinSlash (normalizeSegments (\<not> isAbs) [] (splitSlash p))
            in if q = [] then (if isAbs then [slash]
                               else if trailingSeparator then dotSegment @ [slash]
                               else dotSegment)
               else (let q' = (if trailingSeparator then q @ [slash] else q)
                     in if isAbs then slash # q' else q')))"

text \<open>
  The segments of \<open>resolve(p)\<close> for a working directory that is absolute: the path is
  taken from the working directory unless it is absolute itself.
\<close>

definition posixResolvedSegments :: "jsstring \<Rightarrow> jsstring \<Rightarrow> jsstring list" where
  "posixResolvedSegments cwd p =
     normalizeSegments False []
       (splitSlash (if posixIsAbsolute p then p
                    else if p = [] then cwd
                    else cwd @ slash # p))"

definition posixResolve :: "jsstring \<Rightarrow> jsstring \<Rightarrow> jsstring" where
  "posixResolve cwd p = slash # joinSlash (posixResolvedSegments cwd p)"

text \<open>The two lists without their longest common prefix.\<close>

fun dropCommon :: "'a list \<Rightarrow> 'a list \<Rightarrow> 'a list \<times> 'a list" where
  "dropCommon (x # xs) (y # ys) = (if x = y then dropCommon xs ys else (x # xs, y # ys))"
| "dropCommon xs ys = (xs, ys)"

text \<open>
  \<open>relative(from, to)\<close>: both paths are resolved; one \<open>..\<close> for every segment of \<open>from\<close>
  below the common ancestor, then the segments of \<open>to\<close> below it.
\<close>

definition posixRelative :: "jsstring \<Rightarrow> jsstring \<Rightarrow> jsstring \<Rightarrow> jsstring" where
  "posixRelative cwd from to =
     (if from = to then []
      else (case dropCommon (posixResolvedSegments cwd from) (posixResolvedSegments cwd to) of
              (up, down) \<Rightarrow> joinSlash (replicate (length up) dotdotSegment @ down)))"

definition posix :: "jsstring \<Rightarrow> path_api" where
  "posix cwd =
     \<lparr> p_cwd = cwd, p_isAbsolute = posixIsAbsolute, p_normalize = posixNormalize,
       p_resolve = (\<lambda>a b. posixResolve a b), p_relative = posixRelative cwd \<rparr>"

text \<open>A backend configuration with the given name and root.\<close>

definition backend :: "string \<Rightarrow> string option \<Rightarrow> EnriLspServerConfig" where
  "backend label root =
     \<lparr> name = Some (js label), extensions = [js ''ts''], command = [js label],
       rootDir = map_option js root, initializationOptions = None, warmupMs = None \<rparr>"

section \<open>Rename by symbol name (src/index.ts: handleRenameSymbol; src/lsp/client.ts)\<close>

text \<open>
  The entries of a \<open>textDocument/documentSymbol\<close> result: \<open>null\<close> entries are skipped,
  an entry with a \<open>location\<close> is a \<open>SymbolInformation\<close> (name, kind, start of
  \<open>location.range\<close>), any other entry is a \<open>DocumentSymbol\<close> (name, kind, start of
  \<open>selectionRange\<close>, children).
\<close>

datatype DocumentSymbol =
  Symbol jsstring int LspPosition "DocumentSymbol list"

datatype symbol_entry =
    NullEntry
  | SymbolInformation jsstring int LspPosition
  | Hierarchical DocumentSymbol

record SymbolMatch =
  m_name :: jsstring
  m_kind :: int
  m_position :: LspPosition

text \<open>What a backend does with a request: a result, an error response, or no answer.\<close>

datatype 'a reply = Result 'a | ErrorReply jsstring | NoReply

text \<open>\<open>LspWorkspaceEdit\<close>: the optional \<open>changes\<close>, per document URI.\<close>

type_synonym workspace_edit = "(jsstring \<times> LspTextEdit list) list option"

text \<open>
  An \<open>LspLocation\<close> as \<open>normalizeLocations\<close> builds it: the \<open>uri\<close> and the \<open>range\<close> of
  the entry, each absent when the entry does not have it.
\<close>

type_synonym location = "json option \<times> json option"

text \<open>
  A routed backend as the dispatcher meets it: whether \<open>getServerForConfig\<close> and the
  readiness promise succeed, the state they yield, and the replies of the server. The
  document-symbol result is \<open>None\<close> when it is not an array; the rename result is \<open>None\<close>
  when it is not an object; the definition result is the list \<open>normalizeLocations\<close> makes
  of it, and \<open>None\<close> when \<open>normalizeLocations\<close> throws on it (the \<open>in\<close> operator applied
  to a number or a string, a property read on a \<open>null\<close> entry).
\<close>

record Backend =
  b_starts :: bool
  b_state :: ServerState
  b_documentSymbol :: "symbol_entry list option reply"
  b_definition :: "location list option reply"
  b_rename :: "workspace_edit option reply"

text \<open>
  The world of one tool call: the backends routed for the file, in routing order, and
  whether the file can be read from disk.
\<close>

record World =
  w_backends :: "Backend list"
  w_fileReadable :: bool

text \<open>What reaches the backends: \<open>didOpen\<close> notifications and requests with their timeout.\<close>

datatype wire = DidOpen nat | Request nat lsp_request nat

text \<open>
  The client's side: which backends have the document open (\<open>state.openFiles\<close>), and
  everything sent to a backend so far.
\<close>

record Session =
  opened :: "nat list"
  sent :: "wire list"

datatype dispatch_error =
  NoServerConfigured | FileReadFailed | StartFailed | RequestFailed | MalformedResult

text \<open>
  \<open>ensureFileOpen\<close>: nothing happens when the document is open; otherwise the file is
  read (which may throw), the document is recorded as open and \<open>didOpen\<close> is sent.
\<close>

definition ensureFileOpen :: "World \<Rightarrow> nat \<Rightarrow> Session \<Rightarrow> dispatch_error + Session" where
  "ensureFileOpen world i session =
     (if i \<in> set (opened session) then Inr session
      else if \<not> w_fileReadable world then Inl FileReadFailed
      else Inr (session\<lparr> opened := opened session @ [i], sent := sent session @ [DidOpen i] \<rparr>))"

text \<open>The \<open>for (const cfg of configs)\<close> loop of \<open>getDocumentSymbols\<close>.\<close>

fun documentSymbolsLoop ::
  "World \<Rightarrow> (nat \<times> Backend) list \<Rightarrow> Session \<Rightarrow> (dispatch_error + symbol_entry list) \<times> Session" where
  "documentSymbolsLoop world [] session = (Inr [], session)"
| "documentSymbolsLoop world ((i, b) # rest) session =
     (if \<not> b_starts b then documentSymbolsLoop world rest session
      else if \<not> serverAdvertisedCapability (b_state b) (requestCapability DocumentSymbol)
        then documentSymbolsLoop world rest session
      else (case ensureFileOpen world i session of
              Inl e \<Rightarrow> (Inl e, session)
            | Inr session1 \<Rightarrow>
                (let session2 = session1\<lparr> sent := sent session1 @
                                  [Request i DocumentSymbol (requestTimeoutMs DocumentSymbol)] \<rparr>
                 in (case b_documentSymbol b of
                       Result (Some entries) \<Rightarrow> (Inr entries, session2)
                     | Result None \<Rightarrow> documentSymbolsLoop world rest session2
                     | ErrorReply _ \<Rightarrow> documentSymbolsLoop world rest session2
                     | NoReply \<Rightarrow> documentSymbolsLoop world rest session2))))"

definition indexed :: "'a list \<Rightarrow> (nat \<times> 'a) list" where
  "indexed xs = zip [0..<length xs] xs"

definition getDocumentSymbols ::
  "World \<Rightarrow> Session \<Rightarrow> (dispatch_error + symbol_entry list) \<times> Session" where
  "getDocumentSymbols world session =
     (if length (w_backends world) = 0 then (Inl NoServerConfigured, session)
      else documentSymbolsLoop world (indexed (w_backends world)) session)"

text \<open>
  \<open>symbolKindFromString\<close>: a missing or empty hint gives no kind; otherwise the hint is
  trimmed and lower-cased (\<open>trimLower\<close>, the two string built-ins) and looked up in an
  object literal. The lookup \<open>map[normalized]\<close> yields the number of an own key,
  \<open>undefined\<close> for a name the object does not have, and for a name that the object
  inherits from \<open>Object.prototype\<close> (such as \<open>__proto__\<close>) the inherited member, which is
  not a number.
\<close>

datatype kind_hint = NoHint | KindNumber int | InheritedMember

definition kindTable :: "(jsstring \<times> int) list" where
  "kindTable =
     [(js ''file'', 1), (js ''module'', 2), (js ''namespace'', 3), (js ''package'', 4),
      (js ''class'', 5), (js ''method'', 6), (js ''property'', 7), (js ''field'', 8),
      (js ''constructor'', 9), (js ''enum'', 10), (js ''interface'', 11),
      (js ''function'', 12), (js ''variable'', 13), (js ''constant'', 14),
      (js ''string'', 15), (js ''number'', 16), (js ''boolean'', 17), (js ''array'', 18),
      (js ''object'', 19), (js ''key'', 20), (js ''null'', 21), (js ''enummember'', 22),
      (js ''enum-member'', 22), (js ''struct'', 23), (js ''event'', 24),
      (js ''operator'', 25), (js ''typeparameter'', 26), (js ''type-parameter'', 26)]"

definition objectPrototypeMembers :: "jsstring list" where
  "objectPrototypeMembers =
     [js ''__proto__'', js ''constructor'', js ''hasOwnProperty'', js ''isPrototypeOf'',
      js ''propertyIsEnumerable'', js ''toLocaleString'', js ''toString'', js ''valueOf'',
      js ''__defineGetter__'', js ''__defineSetter__'', js ''__lookupGetter__'',
      js ''__lookupSetter__'']"

definition symbolKindFromString :: "(jsstring \<Rightarrow> jsstring) \<Rightarrow> jsstring option \<Rightarrow> kind_hint" where
  "symbolKindFromString trimLower kind =
     (if \<not> truthyString kind then NoHint
      else (case map_of kindTable (trimLower (the kind)) of
              Some n \<Rightarrow> KindNumber n
            | None \<Rightarrow>
                (if trimLower (the kind) \<in> set objectPrototypeMembers then InheritedMember
                 else NoHint)))"

definition kindNames :: "(int \<times> jsstring) list" where
  "kindNames =
     [(1, js ''file''), (2, js ''module''), (3, js ''namespace''), (4, js ''package''),
      (5, js ''class''), (6, js ''method''), (7, js ''property''), (8, js ''field''),
      (9, js ''constructor''), (10, js ''enum''), (11, js ''interface''),
      (12, js ''function''), (13, js ''variable''), (14, js ''constant''),
      (15, js ''string''), (16, js ''number''), (17, js ''boolean''), (18, js ''array''),
      (19, js ''object''), (20, js ''key''), (21, js ''null''), (22, js ''enumMember''),
      (23, js ''struct''), (24, js ''event''), (25, js ''operator''),
      (26, js ''typeParameter'')]"

text \<open>
  Numbers are IEEE doubles. On a safe integer (magnitude below \<open>2^53\<close>) adding one is
  exact and a template literal prints the decimal digits. Beyond that range the sum is
  rounded and the printed form is the shortest one that reads back as the same double
  (zero-padded, in exponent notation from \<open>1e21\<close>): there the two operations of the
  language are parameters of the model.
\<close>

record js_number_ops =
  largePlusOne :: "int \<Rightarrow> int"
  largeToString :: "int \<Rightarrow> jsstring"

definition isSafeInteger :: "int \<Rightarrow> bool" where
  "isSafeInteger n = (\<bar>n\<bar> < 2 ^ 53)"

definition decimalDigits :: "int \<Rightarrow> jsstring" where
  "decimalDigits n = (if n < 0 then js ''-'' else []) @ js (decimal (nat \<bar>n\<bar>))"

definition plusOne :: "js_number_ops \<Rightarrow> int \<Rightarrow> int" where
  "plusOne ops n = (if isSafeInteger n then n + 1 else largePlusOne ops n)"

definition numberToString :: "js_number_ops \<Rightarrow> int \<Rightarrow> jsstring" where
  "numberToString ops n = (if isSafeInteger n then decimalDigits n else largeToString ops n)"

text \<open>
  Number operations for inputs on which the range beyond the safe integers is never
  reached.
\<close>

definition unusedNumberOps :: js_number_ops where
  "unusedNumberOps = \<lparr> largePlusOne = (\<lambda>n. n), largeToString = (\<lambda>n. []) \<rparr>"

definition symbolKindToString :: "js_number_ops \<Rightarrow> int \<Rightarrow> jsstring" where
  "symbolKindToString ops kind =
     (case map_of kindNames kind of
        Some label \<Rightarrow> label
      | None \<Rightarrow> js ''unknown('' @ numberToString ops kind @ js '')'')"

text \<open>\<open>pushMatch\<close> and \<open>walkDocumentSymbol\<close> of \<open>findSymbolsByName\<close>.\<close>

definition pushMatch :: "jsstring \<Rightarrow> kind_hint \<Rightarrow> jsstring \<Rightarrow> int \<Rightarrow> LspPosition \<Rightarrow> SymbolMatch list" where
  "pushMatch symbolName desiredKind nm kind position =
     (if nm \<noteq> symbolName then []
      else if desiredKind \<noteq> NoHint \<and> KindNumber kind \<noteq> desiredKind then []
      else [\<lparr> m_name = nm, m_kind = kind, m_position = position \<rparr>])"

fun walkDocumentSymbol :: "jsstring \<Rightarrow> kind_hint \<Rightarrow> DocumentSymbol \<Rightarrow> SymbolMatch list" where
  "walkDocumentSymbol symbolName desiredKind (Symbol nm kind selectionStart children) =
     pushMatch symbolName desiredKind nm kind selectionStart
     @ concat (map (walkDocumentSymbol symbolName desiredKind) children)"

fun entryMatches :: "jsstring \<Rightarrow> kind_hint \<Rightarrow> symbol_entry \<Rightarrow> SymbolMatch list" where
  "entryMatches symbolName desiredKind NullEntry = []"
| "entryMatches symbolName desiredKind (SymbolInformation nm kind position) =
     pushMatch symbolName desiredKind nm kind position"
| "entryMatches symbolName desiredKind (Hierarchical symbol) =
     walkDocumentSymbol symbolName desiredKind symbol"

definition symbolMatches :: "jsstring \<Rightarrow> kind_hint \<Rightarrow> symbol_entry list \<Rightarrow> SymbolMatch list" where
  "symbolMatches symbolName desiredKind docs = concat (map (entryMatches symbolName desiredKind) docs)"

definition findSymbolsByName ::
  "(jsstring \<Rightarrow> jsstring) \<Rightarrow> World \<Rightarrow> Session \<Rightarrow> jsstring \<Rightarrow> jsstring option \<Rightarrow>
   (dispatch_error + SymbolMatch list) \<times> Session" where
  "findSymbolsByName trimLower world session symbolName symbolKind =
     (case getDocumentSymbols world session of
        (Inl e, session1) \<Rightarrow> (Inl e, session1)
      | (Inr docs, session1) \<Rightarrow>
          (Inr (symbolMatches symbolName (symbolKindFromString trimLower symbolKind) docs),
           session1))"




text \<open>
  \<open>renameSymbol\<close>: the loop over the routed backends, then the fallback to the first
  routed backend, whose failures are not caught.
\<close>

fun renameLoop ::
  "World \<Rightarrow> (nat \<times> Backend) list \<Rightarrow> Session \<Rightarrow> (dispatch_error + workspace_edit) option \<times> Session" where
  "renameLoop world [] session = (None, session)"
| "renameLoop world ((i, b) # rest) session =
     (if \<not> b_starts b then renameLoop world rest session
      else if \<not> serverAdvertisedCapability (b_state b) (requestCapability Rename)
        then renameLoop world rest session
      else (case ensureFileOpen world i session of
              Inl e \<Rightarrow> (Some (Inl e), session)
            | Inr session1 \<Rightarrow>
                (let session2 = session1\<lparr> sent := sent session1 @
                                  [Request i Rename (requestTimeoutMs Rename)] \<rparr>
                 in (case b_rename b of
                       Result (Some edit) \<Rightarrow> (Some (Inr edit), session2)
                     | Result None \<Rightarrow> (Some (Inr None), session2)
                     | ErrorReply _ \<Rightarrow> renameLoop world rest session2
                     | NoReply \<Rightarrow> renameLoop world rest session2))))"

definition renameFallback :: "World \<Rightarrow> Session \<Rightarrow> (dispatch_error + workspace_edit) \<times> Session" where
  "renameFallback world session =
     (case w_backends world of
        [] \<Rightarrow> (Inl NoServerConfigured, session)
      | b # _ \<Rightarrow>
          (if \<not> b_starts b then (Inl StartFailed, session)
           else (case ensureFileOpen world 0 session of
                   Inl e \<Rightarrow> (Inl e, session)
                 | Inr session1 \<Rightarrow>
                     (let session2 = session1\<lparr> sent := sent session1 @
                                       [Request 0 Rename (requestTimeoutMs Rename)] \<rparr>
                      in (case b_rename b of
                            Result (Some edit) \<Rightarrow> (Inr edit, session2)
                          | Result None \<Rightarrow> (Inr None, session2)
                          | ErrorReply _ \<Rightarrow> (Inl RequestFailed, session2)
                          | NoReply \<Rightarrow> (Inl RequestFailed, session2))))))"

definition renameSymbol :: "World \<Rightarrow> Session \<Rightarrow> (dispatch_error + workspace_edit) \<times> Session" where
  "renameSymbol world session =
     (if length (w_backends world) = 0 then (Inl NoServerConfigured, session)
      else (case renameLoop world (indexed (w_backends world)) session of
              (Some r, session1) \<Rightarrow> (r, session1)
            | (None, session1) \<Rightarrow> renameFallback world session1))"

text \<open>The texts of \<open>handleRenameSymbol\<close>; \<open>joinLines\<close> is \<open>join("\n")\<close>.\<close>

fun joinLines :: "jsstring list \<Rightarrow> jsstring" where
  "joinLines [] = []"
| "joinLines [l] = l"
| "joinLines (l # ls) = l @ newline # joinLines ls"

definition dquote :: code_unit where
  "dquote = 34"

definition candidateLine :: "js_number_ops \<Rightarrow> jsstring \<Rightarrow> SymbolMatch \<Rightarrow> jsstring" where
  "candidateLine ops file_path m =
     file_path @ js '':'' @ numberToString ops (plusOne ops (line (m_position m))) @ js '':''
     @ numberToString ops (plusOne ops (character (m_position m)))
     @ js '' ('' @ symbolKindToString ops (m_kind m) @ js '')''"

definition noSymbolsWarning :: jsstring where
  "noSymbolsWarning =
     js ''Note: EnriLSP uses LSP document symbols, which only includes declarations in the given file. If you are trying to resolve a symbol usage, provide a cursor position instead.''"

definition noSymbolsText :: "jsstring \<Rightarrow> jsstring \<Rightarrow> jsstring" where
  "noSymbolsText file_path symbol_name =
     noSymbolsWarning @ [newline, newline] @ js ''No symbols found with name '' @ [dquote]
     @ symbol_name @ [dquote] @ js '' in '' @ file_path @ js ''.''"

definition ambiguityText :: "js_number_ops \<Rightarrow> jsstring \<Rightarrow> jsstring \<Rightarrow> SymbolMatch list \<Rightarrow> jsstring" where
  "ambiguityText ops file_path symbol_name matches =
     js ''Multiple symbols match '' @ [dquote] @ symbol_name @ [dquote]
     @ js ''. Please narrow with symbol_kind.'' @ [newline, newline] @ js ''Candidates:''
     @ [newline] @ joinLines (map (candidateLine ops file_path) matches)"

text \<open>The preview counts the keys of \<open>edit.changes\<close>, each document URI once.\<close>

definition previewText :: "js_number_ops \<Rightarrow> jsstring \<Rightarrow> jsstring \<Rightarrow> workspace_edit \<Rightarrow> jsstring" where
  "previewText ops symbol_name new_name edit =
     js ''Rename preview for '' @ symbol_name @ js '' -> '' @ new_name @ [newline]
     @ js ''Files touched: ''
     @ numberToString ops
         (case edit of None \<Rightarrow> 0 | Some changes \<Rightarrow> int (length (remdups (map fst changes))))"

text \<open>
  The outcome of the tool call: a text response, a rejection, or (without \<open>dry_run\<close>)
  the workspace edit handed to \<open>applyWorkspaceEditToDisk\<close>, where this model ends.
\<close>

datatype tool_outcome =
    TextResponse jsstring
  | Rejects dispatch_error
  | AppliesEdit workspace_edit

record RenameSymbolArgs =
  file_path :: jsstring
  symbol_name :: jsstring
  symbol_kind :: "jsstring option"
  new_name :: jsstring
  dry_run :: bool

text \<open>
  \<open>handleRenameSymbol\<close>: look the symbol up by name; answer at once when there is no
  match or more than one; otherwise request the rename at the single match.
\<close>

definition handleRenameSymbol ::
  "js_number_ops \<Rightarrow> (jsstring \<Rightarrow> jsstring) \<Rightarrow> World \<Rightarrow> Session \<Rightarrow> RenameSymbolArgs \<Rightarrow>
   tool_outcome \<times> Session" where
  "handleRenameSymbol ops trimLower world session toolArgs =
     (case findSymbolsByName trimLower world session (symbol_name toolArgs) (symbol_kind toolArgs) of
        (Inl e, session1) \<Rightarrow> (Rejects e, session1)
      | (Inr matches, session1) \<Rightarrow>
          (if length matches = 0 then
             (TextResponse (noSymbolsText (file_path toolArgs) (symbol_name toolArgs)), session1)
           else if length matches > 1 then
             (TextResponse (ambiguityText ops (file_path toolArgs) (symbol_name toolArgs) matches),
              session1)
           else (case renameSymbol world session1 of
                   (Inl e, session2) \<Rightarrow> (Rejects e, session2)
                 | (Inr edit, session2) \<Rightarrow>
                     (if dry_run toolArgs then
                        (TextResponse (previewText ops (symbol_name toolArgs) (new_name toolArgs) edit),
                         session2)
                      else (AppliesEdit edit, session2)))))"

definition newSession :: Session where
  "newSession = \<lparr> opened = [], sent = [] \<rparr>"

text \<open>Whether something sent to a backend is a rename request.\<close>

fun isRenameRequest :: "wire \<Rightarrow> bool" where
  "isRenameRequest (Request _ Rename _) = True"
| "isRenameRequest _ = False"

text \<open>
  A backend that answers every request: document symbols \<open>docs\<close>, no location, and an
  empty edit.
\<close>

definition answeringBackend :: "symbol_entry list \<Rightarrow> Backend" where
  "answeringBackend docs =
     \<lparr> b_starts = True, b_state = stateWithCapabilities [],
       b_documentSymbol = Result (Some docs), b_definition = Result (Some []),
       b_rename = Result (Some (Some [])) \<rparr>"

definition pos :: "int \<Rightarrow> int \<Rightarrow> LspPosition" where
  "pos l c = \<lparr> line = l, character = c \<rparr>"

text \<open>
  The scenario: one backend whose document symbols hold a class \<open>Foo\<close> and a function
  \<open>Foo\<close>, and a rename of \<open>Foo\<close> without a kind hint.
\<close>

definition fooWorld :: World where
  "fooWorld =
     \<lparr> w_backends =
         [answeringBackend
            [Hierarchical (Symbol (js ''Foo'') 5 (pos 0 6) []),
             Hierarchical (Symbol (js ''Foo'') 12 (pos 4 9) [])]],
       w_fileReadable = True \<rparr>"

definition fooArgs :: RenameSymbolArgs where
  "fooArgs =
     \<lparr> file_path = js ''/p/a.ts'', symbol_name = js ''Foo'', symbol_kind = None,
       new_name = js ''Bar'', dry_run = False \<rparr>"






section \<open>Process supervisor (src/lsp/client.ts: getServerForConfig, startServer)\<close>

text \<open>
  \<open>makeServerKey\<close> serializes the command, the normalized root and the extensions with
  \<open>JSON.stringify\<close>, the two arrays element by element and in their order; two keys are
  equal exactly when these three components are, so the key is the triple.
\<close>

record ServerKey =
  k_command :: "jsstring list"
  k_rootDir :: jsstring
  k_extensions :: "jsstring list"

definition makeServerKey :: "path_api \<Rightarrow> EnriLspServerConfig \<Rightarrow> jsstring \<Rightarrow> ServerKey" where
  "makeServerKey P server root =
     \<lparr> k_command = command server, k_rootDir = p_normalize P root,
       k_extensions = extensions server \<rparr>"

text \<open>
  The promise returned by a call of \<open>startServer\<close>: pending while the handshake runs,
  fulfilled with the server state the call created, or rejected.
\<close>

datatype start_state = StartPending | StartFulfilled | StartRejected

text \<open>
  The registry \<open>servers\<close>, the in-flight map \<open>serversStarting\<close>, and what the client has
  done: one entry per call of \<open>startServer\<close> (its key and the state of its promise; the
  call's number names its promise and the server state it creates), the calls that
  reached \<open>spawn\<close>, and the calls that sent the \<open>initialize\<close> request.
\<close>

record Supervisor =
  servers :: "ServerKey \<rightharpoonup> nat"
  serversStarting :: "ServerKey \<rightharpoonup> nat"
  starts :: "(ServerKey \<times> start_state) list"
  spawnLog :: "nat list"
  initializeLog :: "nat list"





definition startState :: "Supervisor \<Rightarrow> nat \<Rightarrow> start_state option" where
  "startState s n = (if n < length (starts s) then Some (snd (starts s ! n)) else None)"











text \<open>
  What identifies a backend instance: the command, the normalized root, and the list of
  extensions in the order of the configuration.
\<close>

definition uniquenessTriple ::
  "path_api \<Rightarrow> EnriLspServerConfig \<times> jsstring \<Rightarrow> jsstring list \<times> jsstring \<times> jsstring list" where
  "uniquenessTriple P request =
     (command (fst request), p_normalize P (snd request), extensions (fst request))"


definition spawnsFor :: "Supervisor \<Rightarrow> ServerKey \<Rightarrow> nat list" where
  "spawnsFor s key = filter (\<lambda>n. fst (starts s ! n) = key) (spawnLog s)"











section \<open>Properties of the edit applier\<close>



lemma set_insert_by: "set (insert_by cmp x xs) = insert x (set xs)"
  by (induction xs) auto

lemma mset_insert_by: "mset (insert_by cmp x xs) = add_mset x (mset xs)"
  by (induction xs) auto

lemma mset_sort_by: "mset (sort_by cmp xs) = mset xs"
  by (induction xs) (simp_all add: sort_by_def mset_insert_by)


lemma sorted_insert_by:
  assumes le: "\<And>a b. cmp a b \<le> 0 \<Longrightarrow> R a b"
    and gt: "\<And>a b. \<not> cmp a b \<le> 0 \<Longrightarrow> R b a"
    and tr: "\<And>a b c. R a b \<Longrightarrow> R b c \<Longrightarrow> R a c"
  shows "sorted_wrt R xs \<Longrightarrow> sorted_wrt R (insert_by cmp x xs)"
proof (induction xs)
  case Nil
  then show ?case by simp
next
  case (Cons y ys)
  show ?case
  proof (cases "cmp x y \<le> 0")
    case True
    then have "R x y" by (rule le)
    with Cons.prems tr show ?thesis using True by auto
  next
    case False
    then have "R y x" by (rule gt)
    with Cons show ?thesis using False by (auto simp: set_insert_by)
  qed
qed

lemma sorted_sort_by:
  assumes le: "\<And>a b. cmp a b \<le> 0 \<Longrightarrow> R a b"
    and gt: "\<And>a b. \<not> cmp a b \<le> 0 \<Longrightarrow> R b a"
    and tr: "\<And>a b c. R a b \<Longrightarrow> R b c \<Longrightarrow> R a c"
  shows "sorted_wrt R (sort_by cmp xs)"
proof (induction xs)
  case Nil
  then show ?case by (simp add: sort_by_def)
next
  case (Cons x xs)
  have "sorted_wrt R (insert_by cmp x (sort_by cmp xs))"
    using le gt tr Cons.IH by (rule sorted_insert_by)
  then show ?case by (simp add: sort_by_def)
qed

lemma normalizeEdits_sorted:
  "sorted_wrt (\<lambda>a b. n_start b \<le> n_start a) (normalizeEdits content edits)"
  unfolding normalizeEdits_def
  by (rule sorted_sort_by) (auto simp: editOrder_def split: if_splits)


lemma lineOffsetsFrom_eq:
  "lineOffsetsFrom i cs =
     map (\<lambda>j. i + j + 1) (filter (\<lambda>j. cs ! j = newline) [0..<length cs])"
proof (induction cs arbitrary: i)
  case Nil
  then show ?case by simp
next
  case (Cons c cs)
  have upt: "[0..<length (c # cs)] = 0 # map Suc [0..<length cs]"
    by (simp add: upt_conv_Cons map_Suc_upt del: upt_Suc)
  show ?case
    unfolding upt by (simp add: Cons.IH filter_map comp_def)
qed








lemma applyNormalized_replaceRanges:
  "b \<le> length content \<Longrightarrow> disjointDescending b es \<Longrightarrow>
   applyNormalized (take b content @ rest) es = Inr (replaceRanges b content es @ rest)"
proof (induction es arbitrary: b rest)
  case Nil
  then show ?case by simp
next
  case (Cons e es)
  define s where "s = nat (n_start e)"
  define t where "t = nat (n_end e)"
  from Cons.prems have bounds: "s \<le> t" "t \<le> b" "n_start e = int s" "n_end e = int t"
    and rest_ok: "disjointDescending s es"
    by (auto simp: s_def t_def)
  from bounds Cons.prems(1) have sl: "s \<le> length content" by simp
  have sp: "splice (take b content @ rest) e
      = take s content @ (n_newText e @ take (b - t) (drop t content) @ rest)"
    using bounds Cons.prems(1)
    by (simp add: splice_def slice_def slice_from_def clamp_index_def min_def take_drop)
  have "applyNormalized (take b content @ rest) (e # es)
      = applyNormalized
          (take s content @ (n_newText e @ take (b - t) (drop t content) @ rest)) es"
    using bounds sp by simp
  also have "\<dots> = Inr (replaceRanges s content es
                          @ (n_newText e @ take (b - t) (drop t content) @ rest))"
    using Cons.IH [OF sl rest_ok] .
  finally show ?case by (simp add: s_def t_def)
qed

lemma applyTextEdits_replaceRanges:
  "disjointDescending (length content) (normalizeEdits content edits) \<Longrightarrow>
   applyTextEditsToContent content edits =
     Inr (replaceRanges (length content) content (normalizeEdits content edits))"
  using applyNormalized_replaceRanges
          [of "length content" content "normalizeEdits content edits" "[]"]
  by (auto simp: applyTextEditsToContent_def normalizeEdits_def sort_by_def)

lemma normalizeEdits_sorted_ties:
  "sorted_wrt (\<lambda>a b. n_start b < n_start a \<or> (n_start b = n_start a \<and> n_end b \<le> n_end a))
     (normalizeEdits content edits)"
  unfolding normalizeEdits_def
  by (rule sorted_sort_by) (auto simp: editOrder_def split: if_splits)

lemma applyTextEdits_in_sorted_order:
  "applyTextEditsToContent content edits =
     applyNormalized content (normalizeEdits content edits)"
  by (auto simp: applyTextEditsToContent_def normalizeEdits_def sort_by_def)

text \<open>
  C7 (as stated). Were the offsets byte offsets, the edit 1:0-1:1 on the three-unit
  content E9 0A 78 (e acute, newline, x; the bytes C3 A9 0A 78 on disk) would start at
  byte 3; the applier computes the start offset 2, the index of the code unit in the
  string.
\<close>

theorem edit_offset_is_not_byte_offset:
  "n_start (hd (normalizeEdits [0xE9, 0x0A, 0x78] [mkEdit 1 0 1 1 ''y''])) = 2
   \<and> byteOffset [0xE9, 0x0A, 0x78] 2 = 3"
  by (simp add: normalizeEdits_def sort_by_def normalizeEdit_def mkEdit_def offsetAt_def
      computeLineOffsets_def newline_def byteOffset_def)

text \<open>
  C7 (amended). The line-start table holds 0 and the index after every newline, counted
  in UTF-16 code units; the normalized edits are the edits converted through that table
  and rearranged so that start offsets never increase (and, among equal starts, end
  offsets never increase); the applier splices them in that
  order, from the end of the content backward, so that whenever the edits are well formed
  and do not overlap the result is the original content with every range, read in the
  coordinates of the original content, replaced by its new text; and the two edits
  0:0-0:5 "Hello" and 1:0-1:3 "X" turn "World\<newline>foo\<newline>" into "Hello\<newline>X\<newline>".
\<close>

theorem edits_spliced_backward_in_descending_order:
  "computeLineOffsets content =
     0 # map Suc (filter (\<lambda>j. content ! j = newline) [0..<length content])
   \<and> mset (normalizeEdits content edits) =
       mset (map (normalizeEdit content (computeLineOffsets content)) edits)
   \<and> sorted_wrt (\<lambda>a b. n_start b \<le> n_start a) (normalizeEdits content edits)
   \<and> sorted_wrt (\<lambda>a b. n_start b < n_start a \<or> (n_start b = n_start a \<and> n_end b \<le> n_end a))
       (normalizeEdits content edits)
   \<and> applyTextEditsToContent content edits =
       applyNormalized content (normalizeEdits content edits)
   \<and> (disjointDescending (length content) (normalizeEdits content edits) \<longrightarrow>
        applyTextEditsToContent content edits =
          Inr (replaceRanges (length content) content (normalizeEdits content edits)))
   \<and> applyTextEditsToContent (js ''World\<newline>foo\<newline>'')
         [mkEdit 0 0 0 5 ''Hello'', mkEdit 1 0 1 3 ''X'']
       = Inr (js ''Hello\<newline>X\<newline>'')"
proof -
  have table: "computeLineOffsets content =
      0 # map Suc (filter (\<lambda>j. content ! j = newline) [0..<length content])"
    by (simp add: computeLineOffsets_def lineOffsetsFrom_eq)
  have perm: "mset (normalizeEdits content edits) =
      mset (map (normalizeEdit content (computeLineOffsets content)) edits)"
    by (simp add: normalizeEdits_def mset_sort_by)
  have scenario: "applyTextEditsToContent (js ''World\<newline>foo\<newline>'')
         [mkEdit 0 0 0 5 ''Hello'', mkEdit 1 0 1 3 ''X'']
       = Inr (js ''Hello\<newline>X\<newline>'')"
    by code_simp
  from table perm normalizeEdits_sorted normalizeEdits_sorted_ties
    applyTextEdits_in_sorted_order applyTextEdits_replaceRanges scenario
  show ?thesis by blast
qed

theorem edits_spliced_backward_in_descending_order_witness:
  "disjointDescending (length (js ''ab\<newline>cd\<newline>''))
     (normalizeEdits (js ''ab\<newline>cd\<newline>'') [mkEdit 0 0 0 1 ''xyz'', mkEdit 1 0 1 1 ''''])
   \<and> replaceRanges (length (js ''ab\<newline>cd\<newline>'')) (js ''ab\<newline>cd\<newline>'')
       (normalizeEdits (js ''ab\<newline>cd\<newline>'') [mkEdit 0 0 0 1 ''xyz'', mkEdit 1 0 1 1 ''''])
       = js ''xyzb\<newline>d\<newline>''
   \<and> applyTextEditsToContent (js ''ab\<newline>cd\<newline>'')
       [mkEdit 0 0 0 1 ''xyz'', mkEdit 1 0 1 1 ''''] = Inr (js ''xyzb\<newline>d\<newline>'')"
proof -
  have a: "disjointDescending (length (js ''ab\<newline>cd\<newline>''))
     (normalizeEdits (js ''ab\<newline>cd\<newline>'') [mkEdit 0 0 0 1 ''xyz'', mkEdit 1 0 1 1 ''''])"
    by code_simp
  have b: "replaceRanges (length (js ''ab\<newline>cd\<newline>'')) (js ''ab\<newline>cd\<newline>'')
       (normalizeEdits (js ''ab\<newline>cd\<newline>'') [mkEdit 0 0 0 1 ''xyz'', mkEdit 1 0 1 1 ''''])
       = js ''xyzb\<newline>d\<newline>''"
    by code_simp
  from a edits_spliced_backward_in_descending_order
         [of "js ''ab\<newline>cd\<newline>''" "[mkEdit 0 0 0 1 ''xyz'', mkEdit 1 0 1 1 '''']"]
  have "applyTextEditsToContent (js ''ab\<newline>cd\<newline>'')
       [mkEdit 0 0 0 1 ''xyz'', mkEdit 1 0 1 1 '''']
     = Inr (replaceRanges (length (js ''ab\<newline>cd\<newline>'')) (js ''ab\<newline>cd\<newline>'')
       (normalizeEdits (js ''ab\<newline>cd\<newline>'') [mkEdit 0 0 0 1 ''xyz'', mkEdit 1 0 1 1 '''']))"
    by blast
  with a b show ?thesis by simp
qed




section \<open>Properties of the capability gate and of the timeouts\<close>

















text \<open>
  C9 (as stated). The handshake's timeout is not longer than that of a definition
  request.
\<close>

theorem handshake_timeout_not_longer:
  "\<not> requestTimeoutMs Definition < requestTimeoutMs Initialize"
  by simp

text \<open>
  C9 (amended). The \<open>initialize\<close> request is sent with the same 30000 ms timeout as the
  definition, references and document-symbol requests, and with half the 60000 ms
  timeout of the rename request.
\<close>

theorem handshake_timeout_equals_steady_state:
  "requestTimeoutMs Initialize = 30000
   \<and> requestTimeoutMs Definition = requestTimeoutMs Initialize
   \<and> requestTimeoutMs References = requestTimeoutMs Initialize
   \<and> requestTimeoutMs DocumentSymbol = requestTimeoutMs Initialize
   \<and> requestTimeoutMs Rename = 2 * requestTimeoutMs Initialize"
  by simp

section \<open>Properties of request correlation\<close>

lemma correlationInvI:
  assumes "1 \<le> nextId c"
    and "\<And>k p. pendingRequests c k = Some p \<Longrightarrow>
          k = IdNum (pr_promise p) \<and> pr_timer p = pr_promise p \<and> 1 \<le> pr_promise p \<and> pr_promise p < nextId c"
    and "\<And>i. armedTimers c i \<noteq> None \<longleftrightarrow> pendingRequests c (IdNum i) \<noteq> None"
    and "\<And>i. pendingRequests c (IdNum i) \<noteq> None \<Longrightarrow> settlementsOf c i = []"
    and "\<And>i. pendingRequests c (IdNum i) = None \<Longrightarrow> 1 \<le> i \<Longrightarrow> i < nextId c \<Longrightarrow>
          length (settlementsOf c i) = 1"
    and "\<And>i. \<not> (1 \<le> i \<and> i < nextId c) \<Longrightarrow> settlementsOf c i = []"
  shows "correlationInv c"
  unfolding correlationInv_def using assms by blast

lemma inv_nextId: "correlationInv c \<Longrightarrow> 1 \<le> nextId c"
  by (simp add: correlationInv_def)

lemma inv_pending:
  "correlationInv c \<Longrightarrow> pendingRequests c k = Some p \<Longrightarrow>
   k = IdNum (pr_promise p) \<and> pr_timer p = pr_promise p \<and> 1 \<le> pr_promise p \<and> pr_promise p < nextId c"
  unfolding correlationInv_def by blast

lemma inv_timer:
  "correlationInv c \<Longrightarrow> armedTimers c i \<noteq> None \<longleftrightarrow> pendingRequests c (IdNum i) \<noteq> None"
  unfolding correlationInv_def by blast

lemma inv_unsettled:
  "correlationInv c \<Longrightarrow> pendingRequests c (IdNum i) \<noteq> None \<Longrightarrow> settlementsOf c i = []"
  unfolding correlationInv_def by blast

lemma inv_settled:
  "correlationInv c \<Longrightarrow> pendingRequests c (IdNum i) = None \<Longrightarrow> 1 \<le> i \<Longrightarrow> i < nextId c \<Longrightarrow>
   length (settlementsOf c i) = 1"
  unfolding correlationInv_def by blast

lemma inv_unused:
  "correlationInv c \<Longrightarrow> \<not> (1 \<le> i \<and> i < nextId c) \<Longrightarrow> settlementsOf c i = []"
  unfolding correlationInv_def by blast

lemma settlementsOf_append:
  "settled c' = settled c @ [(h, x)] \<Longrightarrow>
   settlementsOf c' i = settlementsOf c i @ (if h = i then [x] else [])"
  by (simp add: settlementsOf_def)

lemma settlementsOf_cong:
  "settled c' = settled c \<Longrightarrow> settlementsOf c' i = settlementsOf c i"
  by (simp add: settlementsOf_def)

lemma inv_new: "correlationInv newLspClient"
  by (simp add: correlationInv_def newLspClient_def settlementsOf_def)

lemma sendRequest_fields:
  "nextId (snd (sendRequest c proc meth ps t)) = nextId c + 1"
  "pendingRequests (snd (sendRequest c proc meth ps t)) =
     (pendingRequests c)(IdNum (nextId c) \<mapsto> \<lparr> pr_promise = nextId c, pr_timer = nextId c \<rparr>)"
  "armedTimers (snd (sendRequest c proc meth ps t)) = (armedTimers c)(nextId c \<mapsto> (meth, t))"
  "settled (snd (sendRequest c proc meth ps t)) = settled c"
  "fst (sendRequest c proc meth ps t) = nextId c"
  by (simp_all add: sendRequest_def sendMessage_def Let_def)

lemma inv_sendRequest:
  assumes inv: "correlationInv c"
  shows "correlationInv (snd (sendRequest c proc meth ps t))"
proof (rule correlationInvI)
  let ?c = "snd (sendRequest c proc meth ps t)"
  show "1 \<le> nextId ?c" using inv_nextId [OF inv] by (simp add: sendRequest_fields)
  show "k = IdNum (pr_promise p) \<and> pr_timer p = pr_promise p \<and> 1 \<le> pr_promise p \<and> pr_promise p < nextId ?c"
    if "pendingRequests ?c k = Some p" for k p
  proof (cases "k = IdNum (nextId c)")
    case True
    with that inv_nextId [OF inv] show ?thesis by (auto simp: sendRequest_fields)
  next
    case False
    with that have "pendingRequests c k = Some p" by (simp add: sendRequest_fields)
    from inv_pending [OF inv this] show ?thesis by (simp add: sendRequest_fields)
  qed
  show "armedTimers ?c i \<noteq> None \<longleftrightarrow> pendingRequests ?c (IdNum i) \<noteq> None" for i
    using inv_timer [OF inv, of i] by (simp add: sendRequest_fields)
  have fresh: "pendingRequests c (IdNum (nextId c)) = None"
  proof (cases "pendingRequests c (IdNum (nextId c))")
    case None then show ?thesis .
  next
    case (Some p)
    from inv_pending [OF inv this] have "nextId c < nextId c" by auto
    then show ?thesis by simp
  qed
  show "settlementsOf ?c i = []" if "pendingRequests ?c (IdNum i) \<noteq> None" for i
  proof (cases "i = nextId c")
    case True
    then show ?thesis using inv_unused [OF inv, of i]
      by (simp add: settlementsOf_cong [OF sendRequest_fields(4)])
  next
    case False
    with that show ?thesis using inv_unsettled [OF inv, of i]
      by (simp add: sendRequest_fields settlementsOf_cong [OF sendRequest_fields(4)])
  qed
  show "length (settlementsOf ?c i) = 1"
    if "pendingRequests ?c (IdNum i) = None" "1 \<le> i" "i < nextId ?c" for i
  proof -
    from that(1) have "i \<noteq> nextId c" "pendingRequests c (IdNum i) = None"
      by (auto simp: sendRequest_fields split: if_splits)
    with that(2,3) show ?thesis using inv_settled [OF inv, of i]
      by (simp add: sendRequest_fields settlementsOf_cong [OF sendRequest_fields(4)])
  qed
  show "settlementsOf ?c i = []" if "\<not> (1 \<le> i \<and> i < nextId ?c)" for i
  proof -
    from that have "\<not> (1 \<le> i \<and> i < nextId c)" by (auto simp: sendRequest_fields)
    from inv_unused [OF inv this] show ?thesis
      by (simp add: settlementsOf_cong [OF sendRequest_fields(4)])
  qed
qed

text \<open>Settling the pending request \<open>i\<close>: what resolve, reject and the timer have in common.\<close>

lemma inv_settle:
  assumes inv: "correlationInv c"
    and pend: "pendingRequests c (IdNum i) \<noteq> None"
    and n: "nextId c' = nextId c"
    and p: "pendingRequests c' = (pendingRequests c)(IdNum i := None)"
    and t: "armedTimers c' = (armedTimers c)(i := None)"
    and s: "settled c' = settled c @ [(i, x)]"
  shows "correlationInv c'"
proof (rule correlationInvI)
  show "1 \<le> nextId c'" using inv_nextId [OF inv] n by simp
  show "k = IdNum (pr_promise q) \<and> pr_timer q = pr_promise q \<and> 1 \<le> pr_promise q \<and> pr_promise q < nextId c'"
    if "pendingRequests c' k = Some q" for k q
  proof -
    from that p have "pendingRequests c k = Some q" by (auto split: if_splits)
    from inv_pending [OF inv this] n show ?thesis by simp
  qed
  show "armedTimers c' j \<noteq> None \<longleftrightarrow> pendingRequests c' (IdNum j) \<noteq> None" for j
    using inv_timer [OF inv, of j] p t by simp
  show "settlementsOf c' j = []" if "pendingRequests c' (IdNum j) \<noteq> None" for j
  proof -
    from that p have "j \<noteq> i" "pendingRequests c (IdNum j) \<noteq> None" by (auto split: if_splits)
    then show ?thesis using inv_unsettled [OF inv, of j] settlementsOf_append [OF s, of j] by simp
  qed
  from pend obtain q where q: "pendingRequests c (IdNum i) = Some q" by blast
  from inv_pending [OF inv q] have range: "1 \<le> i" "i < nextId c" by auto
  show "length (settlementsOf c' j) = 1"
    if "pendingRequests c' (IdNum j) = None" "1 \<le> j" "j < nextId c'" for j
  proof (cases "j = i")
    case True
    then show ?thesis using inv_unsettled [OF inv pend] settlementsOf_append [OF s, of j] by simp
  next
    case False
    with that p n have "pendingRequests c (IdNum j) = None" "j < nextId c" by auto
    with that(2) False show ?thesis
      using inv_settled [OF inv, of j] settlementsOf_append [OF s, of j] by simp
  qed
  show "settlementsOf c' j = []" if "\<not> (1 \<le> j \<and> j < nextId c')" for j
  proof -
    from that n range have "j \<noteq> i" by auto
    with that n show ?thesis using inv_unused [OF inv, of j] settlementsOf_append [OF s, of j] by simp
  qed
qed

lemma inv_unchanged:
  assumes inv: "correlationInv c"
    and "nextId c' = nextId c" "pendingRequests c' = pendingRequests c"
    and "armedTimers c' = armedTimers c" "settled c' = settled c"
  shows "correlationInv c'"
  using assms unfolding correlationInv_def settlementsOf_def by simp

lemma inv_timerFires:
  assumes inv: "correlationInv c"
  shows "correlationInv (timerFires c h)"
proof (cases "armedTimers c h")
  case None
  then show ?thesis using inv by (simp add: timerFires_def)
next
  case (Some mt)
  then have pend: "pendingRequests c (IdNum h) \<noteq> None" using inv_timer [OF inv, of h] by simp
  obtain m t where mt: "mt = (m, t)" by (cases mt)
  show ?thesis
    by (rule inv_settle [OF inv pend, where x = "RejectedTimeout m t"])
       (simp_all add: timerFires_def Some mt)
qed

lemma handleMessage_pending:
  assumes "pendingRequests c (IdNum i) = Some q" "msg_id m = Some (IdNum i)"
  shows "nextId (fst (handleMessage u c st m)) = nextId c"
    "pendingRequests (fst (handleMessage u c st m)) = (pendingRequests c)(IdNum i := None)"
    "armedTimers (fst (handleMessage u c st m)) = (armedTimers c)(pr_timer q := None)"
    "settled (fst (handleMessage u c st m)) =
       settled c @ [(pr_promise q, case msg_error m of Some e \<Rightarrow> RejectedError (err_message e)
                                    | None \<Rightarrow> Resolved (msg_result m))]"
  using assms
  by (simp_all add: handleMessage_def pendingReject_def pendingResolve_def Let_def
      split: option.splits)

lemma handleMessage_not_pending:
  assumes "pendingFor c (msg_id m) = None"
  shows "nextId (fst (handleMessage u c st m)) = nextId c"
    "pendingRequests (fst (handleMessage u c st m)) = pendingRequests c"
    "armedTimers (fst (handleMessage u c st m)) = armedTimers c"
    "settled (fst (handleMessage u c st m)) = settled c"
  using assms
  by (simp_all add: handleMessage_def answerServerRequest_def handleNotification_def
      sendMessage_def Let_def split: prod.splits)

lemma inv_handleMessage:
  assumes inv: "correlationInv c"
  shows "correlationInv (fst (handleMessage u c st m))"
proof (cases "pendingFor c (msg_id m)")
  case None
  show ?thesis
    by (rule inv_unchanged [OF inv]) (simp_all add: handleMessage_not_pending [OF None])
next
  case (Some q)
  then obtain k where k: "msg_id m = Some k" "pendingRequests c k = Some q"
    by (cases "msg_id m") auto
  from inv_pending [OF inv k(2)] obtain i where i: "k = IdNum i" "pr_promise q = i" "pr_timer q = i"
    by blast
  have pend: "pendingRequests c (IdNum i) = Some q" using k i by simp
  have mid: "msg_id m = Some (IdNum i)" using k i by simp
  show ?thesis
    by (rule inv_settle [OF inv, where i = i])
       (simp_all add: handleMessage_pending [OF pend mid] pend i)
qed

lemma inv_step: "correlationInv c \<Longrightarrow> correlationInv (clientStep u c ev)"
  by (cases ev) (simp_all add: inv_sendRequest inv_timerFires inv_handleMessage)

lemma inv_run: "correlationInv c \<Longrightarrow> correlationInv (clientRun u c evs)"
  unfolding clientRun_def by (induction evs arbitrary: c) (simp_all add: inv_step)

lemma settled_grows_step: "\<exists>ys. settled (clientStep u c ev) = settled c @ ys"
proof (cases ev)
  case (SendRequest proc meth ps t)
  then show ?thesis by (simp add: sendRequest_fields)
next
  case (TimerFires h)
  then show ?thesis by (simp add: timerFires_def split: option.splits)
next
  case (HandleMessage st m)
  show ?thesis
  proof (cases "pendingFor c (msg_id m)")
    case None
    then show ?thesis using HandleMessage by (simp add: handleMessage_not_pending)
  next
    case (Some q)
    then show ?thesis using HandleMessage
      by (cases "msg_id m")
         (auto simp: handleMessage_def pendingReject_def pendingResolve_def Let_def
            split: option.splits)
  qed
qed

lemma settled_grows_run: "\<exists>ys. settled (clientRun u c evs) = settled c @ ys"
  unfolding clientRun_def
proof (induction evs arbitrary: c)
  case Nil
  then show ?case by simp
next
  case (Cons ev evs)
  from settled_grows_step obtain ys where "settled (clientStep u c ev) = settled c @ ys"
    by blast
  moreover from Cons.IH obtain zs where
    "settled (foldl (clientStep u) (clientStep u c ev) evs) = settled (clientStep u c ev) @ zs"
    by blast
  ultimately show ?case by simp
qed

lemma awaiting_or_settledOnce:
  "correlationInv c \<Longrightarrow> 1 \<le> i \<Longrightarrow> i < nextId c \<Longrightarrow> awaiting c i \<or> settledOnce c i"
  unfolding awaiting_def settledOnce_def
  using inv_timer [of c i] inv_unsettled [of c i] inv_settled [of c i] by blast

lemma settledOnce_range:
  "correlationInv c \<Longrightarrow> settledOnce c i \<Longrightarrow> 1 \<le> i \<and> i < nextId c"
  unfolding settledOnce_def using inv_unused [of c i] by fastforce

lemma nextId_mono_step: "nextId c \<le> nextId (clientStep u c ev)"
proof (cases ev)
  case (SendRequest proc meth ps t)
  then show ?thesis by (simp add: sendRequest_fields)
next
  case (TimerFires h)
  then show ?thesis by (simp add: timerFires_def split: option.splits)
next
  case (HandleMessage st m)
  show ?thesis
  proof (cases "pendingFor c (msg_id m)")
    case None
    then show ?thesis using HandleMessage by (simp add: handleMessage_not_pending)
  next
    case (Some q)
    then show ?thesis using HandleMessage
      by (cases "msg_id m")
         (auto simp: handleMessage_def pendingReject_def pendingResolve_def Let_def
            split: option.splits)
  qed
qed

lemma nextId_mono_run: "nextId c \<le> nextId (clientRun u c evs)"
  unfolding clientRun_def
proof (induction evs arbitrary: c)
  case Nil
  then show ?case by simp
next
  case (Cons ev evs)
  have "nextId c \<le> nextId (clientStep u c ev)" by (rule nextId_mono_step)
  also have "\<dots> \<le> nextId (foldl (clientStep u) (clientStep u c ev) evs)" by (rule Cons.IH)
  finally show ?case by simp
qed

lemma settledOnce_stays:
  assumes inv: "correlationInv c" and s: "settledOnce c i"
  shows "settledOnce (clientRun u c evs) i"
proof -
  let ?c = "clientRun u c evs"
  have inv': "correlationInv ?c" using inv by (rule inv_run)
  from settledOnce_range [OF inv s] nextId_mono_run [of c u evs]
  have range: "1 \<le> i" "i < nextId ?c" by auto
  from settled_grows_run obtain ys where "settled ?c = settled c @ ys" by blast
  then have "settlementsOf ?c i = settlementsOf c i @ map snd (filter (\<lambda>(p, _). p = i) ys)"
    by (simp add: settlementsOf_def)
  with s have "settlementsOf ?c i \<noteq> []" by (auto simp: settledOnce_def)
  then have "\<not> awaiting ?c i" by (simp add: awaiting_def)
  with awaiting_or_settledOnce [OF inv' range] show ?thesis by blast
qed

lemma response_settles:
  assumes inv: "correlationInv c" and a: "awaiting c i"
    and m: "msg_id m = Some (IdNum i)"
  shows "settledOnce (fst (handleMessage u c st m)) i"
    and "settlementsOf (fst (handleMessage u c st m)) i =
           [case msg_error m of Some e \<Rightarrow> RejectedError (err_message e)
            | None \<Rightarrow> Resolved (msg_result m)]"
proof -
  from a obtain q where q: "pendingRequests c (IdNum i) = Some q" by (auto simp: awaiting_def)
  from inv_pending [OF inv q] have qi: "pr_promise q = i" "pr_timer q = i" by auto
  note f = handleMessage_pending [OF q m, of u st]
  from a have none: "settlementsOf c i = []" by (simp add: awaiting_def)
  show "settlementsOf (fst (handleMessage u c st m)) i =
           [case msg_error m of Some e \<Rightarrow> RejectedError (err_message e)
            | None \<Rightarrow> Resolved (msg_result m)]"
    using settlementsOf_append [OF f(4), of i] qi none by simp
  then show "settledOnce (fst (handleMessage u c st m)) i"
    by (simp add: settledOnce_def f qi)
qed

lemma timer_settles:
  assumes a: "awaiting c i"
  shows "settledOnce (timerFires c i) i"
    and "\<exists>meth ms. armedTimers c i = Some (meth, ms) \<and>
           settlementsOf (timerFires c i) i = [RejectedTimeout meth ms]"
proof -
  from a obtain meth ms where t: "armedTimers c i = Some (meth, ms)"
    by (auto simp: awaiting_def)
  from a have none: "settlementsOf c i = []" by (simp add: awaiting_def)
  have s: "settled (timerFires c i) = settled c @ [(i, RejectedTimeout meth ms)]"
    by (simp add: timerFires_def t)
  have eq: "settlementsOf (timerFires c i) i = [RejectedTimeout meth ms]"
    using settlementsOf_append [OF s, of i] none by simp
  with t show "\<exists>meth ms. armedTimers c i = Some (meth, ms) \<and>
           settlementsOf (timerFires c i) i = [RejectedTimeout meth ms]"
    by blast
  from eq show "settledOnce (timerFires c i) i"
    by (simp add: settledOnce_def timerFires_def t)
qed

lemma unknown_response_dropped:
  "pendingFor c (msg_id m) = None \<Longrightarrow> \<not> truthyString (msg_method m) \<Longrightarrow>
   handleMessage u c st m = (c, st)"
  by (simp add: handleMessage_def handleNotification_def)

text \<open>
  C5. In every state the client can reach, each request registered by \<open>sendRequest\<close> is
  either still pending with its timer armed and its promise unsettled, or no longer
  pending with its promise settled by exactly one call. While it is pending, a response
  with its id resolves it, an error response with its id rejects it with the error's
  message, and the expiry of its timer rejects it with the timeout error; each of these
  removes the pending entry, and nothing that happens afterwards settles it again. A
  message without a meth whose id has no pending entry leaves the client and the
  server state as they were.
\<close>

theorem pending_request_settled_exactly_once:
  "(1 \<le> i \<and> i < nextId (clientRun u newLspClient events) \<longrightarrow>
      awaiting (clientRun u newLspClient events) i \<or>
      settledOnce (clientRun u newLspClient events) i)
   \<and> (awaiting (clientRun u newLspClient events) i \<longrightarrow>
        settlementsOf
          (fst (handleMessage u (clientRun u newLspClient events) st (response (IdNum i) v))) i
          = [Resolved (Some v)]
        \<and> settledOnce
            (fst (handleMessage u (clientRun u newLspClient events) st (response (IdNum i) v))) i
        \<and> settlementsOf
            (fst (handleMessage u (clientRun u newLspClient events) st
                    (errorResponse (IdNum i) reason))) i
            = [RejectedError reason]
        \<and> settledOnce
            (fst (handleMessage u (clientRun u newLspClient events) st
                    (errorResponse (IdNum i) reason))) i
        \<and> (\<exists>meth ms.
              armedTimers (clientRun u newLspClient events) i = Some (meth, ms) \<and>
              settlementsOf (timerFires (clientRun u newLspClient events) i) i
                = [RejectedTimeout meth ms])
        \<and> settledOnce (timerFires (clientRun u newLspClient events) i) i)
   \<and> (settledOnce (clientRun u newLspClient events) i \<longrightarrow>
        settledOnce (clientRun u (clientRun u newLspClient events) later) i)
   \<and> (pendingFor c (msg_id m) = None \<and> \<not> truthyString (msg_method m) \<longrightarrow>
        handleMessage u c st m = (c, st))"
proof -
  let ?c = "clientRun u newLspClient events"
  have inv: "correlationInv ?c" using inv_new by (rule inv_run)
  have one: "1 \<le> i \<and> i < nextId ?c \<longrightarrow> awaiting ?c i \<or> settledOnce ?c i"
    using awaiting_or_settledOnce [OF inv] by blast
  have two: "awaiting ?c i \<longrightarrow>
        settlementsOf (fst (handleMessage u ?c st (response (IdNum i) v))) i = [Resolved (Some v)]
        \<and> settledOnce (fst (handleMessage u ?c st (response (IdNum i) v))) i
        \<and> settlementsOf (fst (handleMessage u ?c st (errorResponse (IdNum i) reason))) i
            = [RejectedError reason]
        \<and> settledOnce (fst (handleMessage u ?c st (errorResponse (IdNum i) reason))) i
        \<and> (\<exists>meth ms. armedTimers ?c i = Some (meth, ms) \<and>
              settlementsOf (timerFires ?c i) i = [RejectedTimeout meth ms])
        \<and> settledOnce (timerFires ?c i) i"
  proof
    assume a: "awaiting ?c i"
    have r: "msg_id (response (IdNum i) v) = Some (IdNum i)" by (simp add: response_def)
    have e: "msg_id (errorResponse (IdNum i) reason) = Some (IdNum i)"
      by (simp add: errorResponse_def)
    from response_settles [OF inv a r, of u st] response_settles [OF inv a e, of u st]
      timer_settles [OF a]
    show "settlementsOf (fst (handleMessage u ?c st (response (IdNum i) v))) i = [Resolved (Some v)]
        \<and> settledOnce (fst (handleMessage u ?c st (response (IdNum i) v))) i
        \<and> settlementsOf (fst (handleMessage u ?c st (errorResponse (IdNum i) reason))) i
            = [RejectedError reason]
        \<and> settledOnce (fst (handleMessage u ?c st (errorResponse (IdNum i) reason))) i
        \<and> (\<exists>meth ms. armedTimers ?c i = Some (meth, ms) \<and>
              settlementsOf (timerFires ?c i) i = [RejectedTimeout meth ms])
        \<and> settledOnce (timerFires ?c i) i"
      by (simp add: response_def errorResponse_def)
  qed
  have three: "settledOnce ?c i \<longrightarrow> settledOnce (clientRun u ?c later) i"
    using settledOnce_stays [OF inv] by blast
  have four: "pendingFor c (msg_id m) = None \<and> \<not> truthyString (msg_method m) \<longrightarrow>
        handleMessage u c st m = (c, st)"
    using unknown_response_dropped by blast
  from one two three four show ?thesis by blast
qed

lemmas client_eval = clientRun_def sendRequest_def sendMessage_def timerFires_def handleMessage_def
  pendingResolve_def pendingReject_def newLspClient_def Let_def awaiting_def settledOnce_def
  settlementsOf_def response_def errorResponse_def handleNotification_def

theorem pending_request_settled_exactly_once_witness:
  "1 \<le> (1::int) \<and> 1 < nextId (clientRun id newLspClient [SendRequest 7 (js ''initialize'') None 30000])
   \<and> awaiting (clientRun id newLspClient [SendRequest 7 (js ''initialize'') None 30000]) 1
   \<and> settlementsOf
        (fst (handleMessage id (clientRun id newLspClient [SendRequest 7 (js ''initialize'') None 30000])
                (stateWithCapabilities []) (response (IdNum 1) JNull))) 1
       = [Resolved (Some JNull)]
   \<and> settledOnce
        (clientRun id newLspClient [SendRequest 7 (js ''initialize'') None 30000, TimerFires 1]) 1
   \<and> settledOnce
        (clientRun id
           (clientRun id newLspClient [SendRequest 7 (js ''initialize'') None 30000, TimerFires 1])
           [HandleMessage (stateWithCapabilities []) (response (IdNum 1) JNull)]) 1
   \<and> pendingFor newLspClient (msg_id (response (IdNum 9) JNull)) = None
   \<and> \<not> truthyString (msg_method (response (IdNum 9) JNull))
   \<and> handleMessage id newLspClient (stateWithCapabilities []) (response (IdNum 9) JNull)
       = (newLspClient, stateWithCapabilities [])"
proof -
  let ?send = "[SendRequest 7 (js ''initialize'') None 30000]"
  let ?fire = "[SendRequest 7 (js ''initialize'') None 30000, TimerFires 1]"
  have n: "1 < nextId (clientRun id newLspClient ?send)"
    by (simp add: client_eval)
  have a: "awaiting (clientRun id newLspClient ?send) 1"
    by (simp add: client_eval)
  have s: "settledOnce (clientRun id newLspClient ?fire) 1"
    by (simp add: client_eval)
  have p: "pendingFor newLspClient (msg_id (response (IdNum 9) JNull)) = None"
    by (simp add: client_eval)
  have t: "\<not> truthyString (msg_method (response (IdNum 9) JNull))"
    by (simp add: client_eval)
  note thm1 = pending_request_settled_exactly_once
    [of 1 id ?send "stateWithCapabilities []" JNull "[]" "[]" newLspClient
       "response (IdNum 9) JNull"]
  note thm2 = pending_request_settled_exactly_once
    [of 1 id ?fire "stateWithCapabilities []" JNull "[]"
       "[HandleMessage (stateWithCapabilities []) (response (IdNum 1) JNull)]" newLspClient
       "response (IdNum 9) JNull"]
  from thm1 a have r: "settlementsOf
        (fst (handleMessage id (clientRun id newLspClient ?send)
                (stateWithCapabilities []) (response (IdNum 1) JNull))) 1
       = [Resolved (Some JNull)]"
    by blast
  from thm2 s have l: "settledOnce
        (clientRun id (clientRun id newLspClient ?fire)
           [HandleMessage (stateWithCapabilities []) (response (IdNum 1) JNull)]) 1"
    by blast
  from thm1 p t have d: "handleMessage id newLspClient (stateWithCapabilities [])
        (response (IdNum 9) JNull) = (newLspClient, stateWithCapabilities [])"
    by blast
  from n a r s l p t d show ?thesis by simp
qed

text \<open>
  C8 (as stated). Two requests are sent, the first to process 1 and the second to
  process 2. The second request carries id 2, taken from the counter the first request
  advanced; and a response with id 1 that arrives on the stream of process 2 settles
  the request that was written to process 1.
\<close>

theorem response_from_other_instance_settles:
  "map (\<lambda>(proc, m). (proc, msg_id m))
     (written (clientRun id newLspClient
        [SendRequest 1 (js ''textDocument/definition'') None 30000,
         SendRequest 2 (js ''textDocument/definition'') None 30000]))
     = [(1, Some (IdNum 1)), (2, Some (IdNum 2))]
   \<and> process ((stateWithCapabilities []) \<lparr> process := 2 \<rparr>) = 2
   \<and> settlementsOf
        (clientRun id newLspClient
           [SendRequest 1 (js ''textDocument/definition'') None 30000,
            SendRequest 2 (js ''textDocument/definition'') None 30000,
            HandleMessage ((stateWithCapabilities []) \<lparr> process := 2 \<rparr>)
              (response (IdNum 1) JNull)]) 1
       = [Resolved (Some JNull)]"
  by (simp add: client_eval stateWithCapabilities_def)

text \<open>
  C8 (amended). The id counter and the pending-request map are fields of the one
  \<open>LspClient\<close> that drives every backend instance: whatever process a request is sent
  to, it takes the client's next id and advances the same counter, so consecutive
  requests to two processes carry consecutive ids; and a message whose id has a pending
  entry settles that entry in the same way whichever instance's stream delivered it.
\<close>

theorem id_counter_and_pending_map_shared:
  "fst (sendRequest client proc1 method1 params1 t1) = nextId client
   \<and> fst (sendRequest (snd (sendRequest client proc1 method1 params1 t1))
             proc2 method2 params2 t2) = nextId client + 1
   \<and> (pendingFor client (msg_id m) \<noteq> None \<longrightarrow>
        fst (handleMessage u client st m) = fst (handleMessage u client st' m))"
proof -
  have a: "fst (sendRequest client proc1 method1 params1 t1) = nextId client"
    by (simp add: sendRequest_def Let_def)
  have b: "fst (sendRequest (snd (sendRequest client proc1 method1 params1 t1))
             proc2 method2 params2 t2) = nextId client + 1"
    by (simp add: sendRequest_def sendMessage_def Let_def)
  have c: "pendingFor client (msg_id m) \<noteq> None \<longrightarrow>
        fst (handleMessage u client st m) = fst (handleMessage u client st' m)"
    by (auto simp: handleMessage_def Let_def split: option.splits)
  from a b c show ?thesis by blast
qed

theorem id_counter_and_pending_map_shared_witness:
  "pendingFor (snd (sendRequest newLspClient 1 (js ''initialize'') None 30000))
     (msg_id (response (IdNum 1) JNull)) \<noteq> None
   \<and> fst (handleMessage id (snd (sendRequest newLspClient 1 (js ''initialize'') None 30000))
            ((stateWithCapabilities []) \<lparr> process := 1 \<rparr>) (response (IdNum 1) JNull))
     = fst (handleMessage id (snd (sendRequest newLspClient 1 (js ''initialize'') None 30000))
            ((stateWithCapabilities []) \<lparr> process := 2 \<rparr>) (response (IdNum 1) JNull))"
proof -
  have p: "pendingFor (snd (sendRequest newLspClient 1 (js ''initialize'') None 30000))
     (msg_id (response (IdNum 1) JNull)) \<noteq> None"
    by (simp add: client_eval)
  from p id_counter_and_pending_map_shared
    [where client = "snd (sendRequest newLspClient 1 (js ''initialize'') None 30000)"
       and m = "response (IdNum 1) JNull" and u = id
       and st = "(stateWithCapabilities []) \<lparr> process := 1 \<rparr>"
       and st' = "(stateWithCapabilities []) \<lparr> process := 2 \<rparr>"]
  show ?thesis by blast
qed

section \<open>Properties of the frame codec\<close>

lemma of_char_digitChar: "d < 10 \<Longrightarrow> (of_char (digitChar d) :: nat) = 48 + d"
  by (simp add: digitChar_def)

lemma isDigit_digitChar: "d < 10 \<Longrightarrow> isDigit (digitChar d)"
  by (simp add: isDigit_def of_char_digitChar)

lemma decimal_small: "n < 10 \<Longrightarrow> decimal n = [digitChar n]"
  by (subst decimal.simps) simp

lemma decimal_large:
  "\<not> n < 10 \<Longrightarrow> decimal n = decimal (n div 10) @ [digitChar (n mod 10)]"
  by (subst decimal.simps) simp

lemma decimal_digits: "\<forall>c \<in> set (decimal n). isDigit c"
proof (induction n rule: decimal.induct)
  case (1 n)
  show ?case
  proof (cases "n < 10")
    case True
    then show ?thesis by (simp add: decimal_small isDigit_digitChar)
  next
    case False
    with 1 show ?thesis by (simp add: decimal_large isDigit_digitChar)
  qed
qed

lemma decimal_nonempty: "decimal n \<noteq> []"
  by (cases "n < 10") (simp_all add: decimal_small decimal_large)

lemma parseInt_snoc: "parseInt (ds @ [c]) = 10 * parseInt ds + (of_char c - 48)"
  by (simp add: parseInt_def)

lemma parseInt_decimal: "parseInt (decimal n) = n"
proof (induction n rule: decimal.induct)
  case (1 n)
  show ?case
  proof (cases "n < 10")
    case True
    then show ?thesis by (simp add: decimal_small parseInt_def of_char_digitChar)
  next
    case False
    then have "parseInt (decimal n) = 10 * parseInt (decimal (n div 10)) + (of_char (digitChar (n mod 10)) - 48)"
      by (simp add: decimal_large parseInt_snoc)
    also have "\<dots> = 10 * (n div 10) + n mod 10"
      using 1 False by (simp add: of_char_digitChar)
    finally show ?thesis by simp
  qed
qed

lemma digit_not_CR: "isDigit c \<Longrightarrow> c \<noteq> CHR 0x0D"
  by (auto simp: isDigit_def)

lemma digit_not_space: "isDigit c \<Longrightarrow> \<not> isSpace c"
  by (auto simp: isDigit_def isSpace_def)

lemma digit_ascii: "isDigit c \<Longrightarrow> char_of (of_char c mod (128::nat)) = c"
  by (simp add: isDigit_def)

lemma asciiDecode_digits: "\<forall>c \<in> set ds. isDigit c \<Longrightarrow> asciiDecode ds = ds"
  by (induction ds) (simp_all add: asciiDecode_def digit_ascii)

lemma frame_headerOf: "frame content = headerOf (length content) @ separator @ content"
  by (simp add: frame_def headerOf_def)

lemma header_no_CR: "CHR 0x0D \<notin> set (headerOf n)"
  using decimal_digits [of n] digit_not_CR by (auto simp: headerOf_def)

lemma asciiDecode_append: "asciiDecode (xs @ ys) = asciiDecode xs @ asciiDecode ys"
  by (simp add: asciiDecode_def)

lemma asciiDecode_ascii:
  "\<forall>c \<in> set xs. (of_char c :: nat) < 128 \<Longrightarrow> asciiDecode xs = xs"
  by (induction xs) (simp_all add: asciiDecode_def)

lemma asciiDecode_literal: "asciiDecode ''Content-Length: '' = ''Content-Length: ''"
  by (rule asciiDecode_ascii) simp

lemma asciiDecode_header: "asciiDecode (headerOf n) = headerOf n"
proof -
  have "asciiDecode (decimal n) = decimal n"
    using decimal_digits by (rule asciiDecode_digits)
  then show ?thesis
    by (simp only: headerOf_def asciiDecode_append asciiDecode_literal)
qed

lemma takeWhile_all: "\<forall>c \<in> set ds. P c \<Longrightarrow> takeWhile P ds = ds"
  by (induction ds) simp_all

lemma matchHere_header: "matchHere (headerOf n) = Some (decimal n)"
proof -
  have "take 15 (headerOf n) = ''Content-Length:''"
    by (simp add: headerOf_def)
  moreover have "map lowerAscii ''Content-Length:'' = ''content-length:''"
    by code_simp
  ultimately have pre: "map lowerAscii (take 15 (headerOf n)) = ''content-length:''"
    by simp
  have rest: "drop 15 (headerOf n) = CHR '' '' # decimal n"
    by (simp add: headerOf_def)
  obtain d ds where d: "decimal n = d # ds" using decimal_nonempty [of n] by (cases "decimal n") auto
  with decimal_digits [of n] have "isDigit d" by simp
  then have "\<not> isSpace d" by (rule digit_not_space)
  then have dw: "dropWhile isSpace (CHR '' '' # decimal n) = decimal n"
    by (simp add: d isSpace_def)
  have tw: "takeWhile isDigit (decimal n) = decimal n"
    using decimal_digits by (rule takeWhile_all)
  show ?thesis
    unfolding matchHere_def pre rest dw tw Let_def using decimal_nonempty by simp
qed

lemma regexExec_header: "regexExec (headerOf n) = Some (decimal n)"
proof -
  obtain c cs where "headerOf n = c # cs" by (simp add: headerOf_def)
  then show ?thesis using matchHere_header [of n] by simp
qed

lemma contentLength_header: "contentLength (asciiDecode (headerOf n)) = Some n"
  by (simp add: contentLength_def asciiDecode_header regexExec_header parseInt_decimal)

lemma length_separator: "length separator = 4"
  by (simp add: separator_def)

lemma indexOf_too_short: "length p < length sep \<Longrightarrow> indexOf sep p = None"
proof (induction p)
  case Nil
  then show ?case by auto
next
  case (Cons c cs)
  then have "take (length sep) (c # cs) \<noteq> sep"
    by (metis length_take min.absorb1 less_imp_le_nat nat_neq_iff)
  with Cons show ?case by simp
qed

lemma take_separator_CR: "take (length separator) (c # cs) = separator \<Longrightarrow> c = CHR 0x0D"
  by (simp add: separator_def)

lemma indexOf_header:
  "CHR 0x0D \<notin> set h \<Longrightarrow> indexOf separator (h @ separator @ rest) = Some (length h)"
proof (induction h)
  case Nil
  have "separator @ rest = CHR 0x0D # (tl separator @ rest)" by (simp add: separator_def)
  moreover have "take (length separator) (separator @ rest) = separator" by simp
  ultimately show ?case by (metis indexOf.simps(2) append_Nil list.size(3))
next
  case (Cons c h)
  then have "c \<noteq> CHR 0x0D" by auto
  then have "take (length separator) (c # (h @ separator @ rest)) \<noteq> separator"
    using take_separator_CR by blast
  with Cons show ?case by simp
qed

lemma indexOf_partial_header:
  "CHR 0x0D \<notin> set h \<Longrightarrow> p @ s = h @ separator \<Longrightarrow> s \<noteq> [] \<Longrightarrow> indexOf separator p = None"
proof (induction h arbitrary: p)
  case Nil
  then have "length p < length separator"
    by (metis append_Nil length_append length_greater_0_conv less_add_same_cancel1)
  then show ?case by (rule indexOf_too_short)
next
  case (Cons c h)
  show ?case
  proof (cases p)
    case Nil
    then show ?thesis by (simp add: separator_def)
  next
    case (Cons c' p')
    with Cons.prems(2) have eq: "c' = c" "p' @ s = h @ separator" by simp_all
    from Cons.prems(1) have "c \<noteq> CHR 0x0D" "CHR 0x0D \<notin> set h" by auto
    then have "take (length separator) (c # p') \<noteq> separator"
      using take_separator_CR by blast
    moreover have "indexOf separator p' = None"
      using Cons.IH [OF \<open>CHR 0x0D \<notin> set h\<close> eq(2) Cons.prems(3)] .
    ultimately show ?thesis using Cons eq by simp
  qed
qed

lemma drain_step:
  assumes h: "CHR 0x0D \<notin> set h" and n: "contentLength (asciiDecode h) = Some (length body)"
  shows "drainServerBuffer (h @ separator @ body @ rest) =
     (case drainServerBuffer rest of (r, bs) \<Rightarrow> (r, body # bs))"
proof -
  have idx: "indexOf separator (h @ separator @ body @ rest) = Some (length h)"
    by (rule indexOf_header [OF h])
  show ?thesis
    by (subst drainServerBuffer.simps) (simp add: idx n)
qed

lemma drain_complete:
  "drainServerBuffer (frame b @ rest) =
     (case drainServerBuffer rest of (r, bs) \<Rightarrow> (r, b # bs))"
  using drain_step [OF header_no_CR, of "length b" b rest]
  by (simp add: frame_headerOf contentLength_header)

lemma drain_waits:
  assumes h: "CHR 0x0D \<notin> set h" and n: "contentLength (asciiDecode h) = Some n"
    and short: "length body < n"
  shows "drainServerBuffer (h @ separator @ body) = (h @ separator @ body, [])"
proof -
  have idx: "indexOf separator (h @ separator @ body) = Some (length h)"
    by (rule indexOf_header [OF h])
  show ?thesis
    by (subst drainServerBuffer.simps) (simp add: idx n short)
qed

lemma drain_partial:
  assumes "p @ s = frame b" "s \<noteq> []"
  shows "drainServerBuffer p = (p, [])"
proof -
  let ?h = "headerOf (length b)"
  have fr: "p @ s = ?h @ separator @ b" using assms(1) by (simp add: frame_headerOf)
  show ?thesis
  proof (cases "length p < length ?h + length separator")
    case True
    then obtain s' where s': "p @ s' = ?h @ separator" "s' \<noteq> []"
    proof -
      from fr have "p = take (length p) (?h @ separator @ b)"
        by (metis append_eq_conv_conj)
      with True have "p = take (length p) (?h @ separator)"
        by (metis append.assoc length_append less_imp_le_nat take_append take_all_iff diff_is_0_eq' take_0 append_Nil2)
      then have "p @ drop (length p) (?h @ separator) = ?h @ separator"
        by (metis append_take_drop_id)
      moreover from True have "length p < length (?h @ separator)" by simp
      then have "drop (length p) (?h @ separator) \<noteq> []"
        by (simp only: drop_eq_Nil not_le)
      ultimately show ?thesis using that by blast
    qed
    have "indexOf separator p = None"
      by (rule indexOf_partial_header [OF header_no_CR s'])
    then show ?thesis by (subst drainServerBuffer.simps) simp
  next
    case False
    then obtain b' where p: "p = ?h @ separator @ b'" and b': "b' @ s = b"
    proof -
      from fr have "p = take (length p) (?h @ separator @ b)"
        by (metis append_eq_conv_conj)
      also from False have "\<dots> = ?h @ separator @ take (length p - length ?h - length separator) b"
        by simp
      finally have 1: "p = ?h @ separator @ take (length p - length ?h - length separator) b" .
      with fr have "?h @ separator @ take (length p - length ?h - length separator) b @ s = ?h @ separator @ b"
        by (metis append.assoc)
      then have "take (length p - length ?h - length separator) b @ s = b" by simp
      with 1 show ?thesis using that by blast
    qed
    from b' assms(2) have short: "length b' < length b" by auto
    show ?thesis
      unfolding p using drain_waits [OF header_no_CR contentLength_header short] .
  qed
qed

lemma drain_empty: "drainServerBuffer [] = ([], [])"
  by (subst drainServerBuffer.simps) (simp add: separator_def)

lemma drain_frames:
  assumes "p = [] \<or> (\<exists>s b. p @ s = frame b \<and> s \<noteq> [])"
  shows "drainServerBuffer (concat (map frame xs) @ p) = (p, xs)"
proof (induction xs)
  case Nil
  from assms show ?case
  proof
    assume "p = []"
    then show ?thesis by (simp add: drain_empty)
  next
    assume "\<exists>s b. p @ s = frame b \<and> s \<noteq> []"
    then obtain s b where "p @ s = frame b" "s \<noteq> []" by blast
    then show ?thesis by (simp add: drain_partial)
  qed
next
  case (Cons x xs)
  have "drainServerBuffer (concat (map frame (x # xs)) @ p) =
        drainServerBuffer (frame x @ (concat (map frame xs) @ p))"
    by simp
  also have "\<dots> = (p, x # xs)"
    by (simp only: drain_complete Cons.IH prod.case)
  finally show ?case .
qed

lemma frame_nonempty: "frame b \<noteq> []"
  by (simp add: frame_def)

lemma split_at_frames:
  "P @ R = concat (map frame bs) \<Longrightarrow>
   \<exists>k p'. P = concat (map frame (take k bs)) @ p' \<and>
          p' @ R = concat (map frame (drop k bs)) \<and> waitingFor p' (drop k bs)"
proof (induction bs arbitrary: P)
  case Nil
  then have "P = concat (map frame (take 0 [])) @ [] \<and>
             [] @ R = concat (map frame (drop 0 [])) \<and> waitingFor [] (drop 0 [])"
    by (simp add: waitingFor_def)
  then show ?case by blast
next
  case (Cons b bs)
  then have "P @ R = frame b @ concat (map frame bs)" by simp
  then obtain us where
    us: "(P = frame b @ us \<and> us @ R = concat (map frame bs)) \<or>
         (P @ us = frame b \<and> R = us @ concat (map frame bs))"
    by (auto simp: append_eq_append_conv2)
  show ?case
  proof (cases "\<exists>vs. P = frame b @ vs \<and> vs @ R = concat (map frame bs)")
    case True
    then obtain vs where vs: "P = frame b @ vs" "vs @ R = concat (map frame bs)" by blast
    from Cons.IH [OF vs(2)] obtain k p' where
      k: "vs = concat (map frame (take k bs)) @ p'"
         "p' @ R = concat (map frame (drop k bs))" "waitingFor p' (drop k bs)"
      by blast
    have "P = concat (map frame (take (Suc k) (b # bs))) @ p' \<and>
          p' @ R = concat (map frame (drop (Suc k) (b # bs))) \<and>
          waitingFor p' (drop (Suc k) (b # bs))"
      using vs(1) k by simp
    then show ?thesis by blast
  next
    case False
    with us have P: "P @ us = frame b" "R = us @ concat (map frame bs)" by auto
    have "us \<noteq> []"
    proof
      assume "us = []"
      with P have "P = frame b @ [] \<and> [] @ R = concat (map frame bs)" by simp
      with False show False by blast
    qed
    with P have "P = concat (map frame (take 0 (b # bs))) @ P \<and>
          P @ R = concat (map frame (drop 0 (b # bs))) \<and> waitingFor P (drop 0 (b # bs))"
      by (auto simp: waitingFor_def)
    then show ?thesis by blast
  qed
qed

lemma waitingFor_drainable:
  "waitingFor p bs \<Longrightarrow> p = [] \<or> (\<exists>s b. p @ s = frame b \<and> s \<noteq> [])"
  unfolding waitingFor_def by blast

lemma waitingFor_complete:
  assumes "waitingFor p bs" "p = concat (map frame bs)"
  shows "p = [] \<and> bs = []"
proof (cases bs)
  case Nil
  with assms show ?thesis by simp
next
  case (Cons b bs')
  with assms(1) obtain s where s: "p @ s = frame b" "s \<noteq> []"
    by (auto simp: waitingFor_def)
  then have "length p < length (frame b)"
    by (metis length_append length_greater_0_conv less_add_same_cancel1)
  moreover from assms(2) Cons have "length (frame b) \<le> length p" by simp
  ultimately show ?thesis by simp
qed

lemma feed_chunks:
  "waitingFor p bs \<Longrightarrow> p @ concat chunks = concat (map frame bs) \<Longrightarrow>
   foldl onData (p, out) chunks = ([], out @ bs)"
proof (induction chunks arbitrary: p bs out)
  case Nil
  then have "p = [] \<and> bs = []" using waitingFor_complete by simp
  then show ?case by simp
next
  case (Cons c cs)
  from Cons.prems(2) have "(p @ c) @ concat cs = concat (map frame bs)" by simp
  from split_at_frames [OF this] obtain k p' where
    k: "p @ c = concat (map frame (take k bs)) @ p'"
       "p' @ concat cs = concat (map frame (drop k bs))" "waitingFor p' (drop k bs)"
    by blast
  have "drainServerBuffer (p @ c) = (p', take k bs)"
    unfolding k(1) by (rule drain_frames [OF waitingFor_drainable [OF k(3)]])
  then have step: "onData (p, out) c = (p', out @ take k bs)"
    by (simp add: onData_def)
  have "foldl onData (p, out) (c # cs) = foldl onData (p', out @ take k bs) cs"
    by (simp add: step)
  also have "\<dots> = ([], (out @ take k bs) @ drop k bs)"
    by (rule Cons.IH [OF k(3) k(2)])
  finally show ?case by simp
qed

lemma receiveChunks_frames:
  assumes "concat chunks = concat (map frame bodies)"
  shows "receiveChunks chunks = ([], bodies)"
proof -
  from split_at_frames [of "[]" "concat chunks" bodies] assms
  obtain k p' where k: "[] = concat (map frame (take k bodies)) @ p'"
    "p' @ concat chunks = concat (map frame (drop k bodies))" "waitingFor p' (drop k bodies)"
    by auto
  from k(1) have p': "p' = []" by simp
  have "take k bodies = []"
  proof (cases "take k bodies")
    case Nil then show ?thesis .
  next
    case (Cons x xs)
    with k(1) frame_nonempty [of x] show ?thesis by simp
  qed
  then have "drop k bodies = bodies" by (metis append_take_drop_id append_Nil)
  with k p' have "waitingFor [] bodies" "[] @ concat chunks = concat (map frame bodies)"
    using assms by simp_all
  from feed_chunks [OF this, of "[]"] show ?thesis by (simp add: receiveChunks_def)
qed

text \<open>
  C2. \<open>sendMessage\<close> writes the header \<open>Content-Length: N\<close> with \<open>N\<close> the byte length of
  the body, the separator, and the body. When the bytes written for a list of messages
  reach the \<open>"data"\<close> handler in chunks, however the bytes are cut into chunks, the
  buffer ends empty and the bodies handed to \<open>JSON.parse\<close> are the bodies written, in
  order; so parsing them gives back the messages wherever parsing inverts
  \<open>JSON.stringify\<close>. In particular a single buffer that holds all the frames is
  drained completely, in order.
\<close>

theorem frame_round_trip:
  "encodeMessage stringify message =
     ''Content-Length: '' @ decimal (length (stringify message)) @ separator @ stringify message
   \<and> (concat chunks = concat (map (encodeMessage stringify) messages) \<longrightarrow>
        fst (receiveChunks chunks) = [] \<and>
        snd (receiveChunks chunks) = map stringify messages \<and>
        ((\<forall>m \<in> set messages. parse (stringify m) = Some m) \<longrightarrow>
           map parse (snd (receiveChunks chunks)) = map Some messages))
   \<and> drainServerBuffer (concat (map (encodeMessage stringify) messages))
       = ([], map stringify messages)"
proof -
  have enc: "map (encodeMessage stringify) messages = map frame (map stringify messages)"
    by (simp add: encodeMessage_def comp_def)
  have a: "encodeMessage stringify message =
     ''Content-Length: '' @ decimal (length (stringify message)) @ separator @ stringify message"
    by (simp add: encodeMessage_def frame_def)
  have b: "concat chunks = concat (map (encodeMessage stringify) messages) \<longrightarrow>
        fst (receiveChunks chunks) = [] \<and>
        snd (receiveChunks chunks) = map stringify messages \<and>
        ((\<forall>m \<in> set messages. parse (stringify m) = Some m) \<longrightarrow>
           map parse (snd (receiveChunks chunks)) = map Some messages)"
  proof
    assume "concat chunks = concat (map (encodeMessage stringify) messages)"
    then have "receiveChunks chunks = ([], map stringify messages)"
      unfolding enc by (rule receiveChunks_frames)
    then show "fst (receiveChunks chunks) = [] \<and>
        snd (receiveChunks chunks) = map stringify messages \<and>
        ((\<forall>m \<in> set messages. parse (stringify m) = Some m) \<longrightarrow>
           map parse (snd (receiveChunks chunks)) = map Some messages)"
      by simp
  qed
  have c: "drainServerBuffer (concat (map (encodeMessage stringify) messages))
       = ([], map stringify messages)"
    unfolding enc using drain_frames [of "[]" "map stringify messages"] by simp
  from a b c show ?thesis by blast
qed

theorem frame_round_trip_witness:
  "concat (map (\<lambda>c. [c]) (concat (map (encodeMessage (\<lambda>s. s)) [''{}'', ''[1]''])))
     = concat (map (encodeMessage (\<lambda>s. s)) [''{}'', ''[1]''])
   \<and> list_all (\<lambda>m. Some ((\<lambda>s. s) m) = Some m) [''{}'', ''[1]'']
   \<and> fst (receiveChunks
            (map (\<lambda>c. [c]) (concat (map (encodeMessage (\<lambda>s. s)) [''{}'', ''[1]''])))) = []
   \<and> map Some (snd (receiveChunks
            (map (\<lambda>c. [c]) (concat (map (encodeMessage (\<lambda>s. s)) [''{}'', ''[1]''])))))
       = map Some [''{}'', ''[1]'']"
proof -
  let ?S = "concat (map (encodeMessage (\<lambda>s. s)) [''{}'', ''[1]''])"
  have h1: "concat (map (\<lambda>c. [c]) ?S) = ?S"
    by (simp only: concat_map_singleton map_ident)
  have h2: "list_all (\<lambda>m. Some ((\<lambda>s. s) m) = Some m) [''{}'', ''[1]'']"
    by simp
  have h3: "\<forall>m \<in> set [''{}'', ''[1]'']. Some ((\<lambda>s. s) m) = Some m"
    by simp
  note t = frame_round_trip
    [where chunks = "map (\<lambda>c. [c]) ?S" and stringify = "\<lambda>s. s"
       and messages = "[''{}'', ''[1]'']" and parse = Some]
  from t h1 have a: "fst (receiveChunks (map (\<lambda>c. [c]) ?S)) = []"
    by blast
  from t h1 h3 have b: "map Some (snd (receiveChunks (map (\<lambda>c. [c]) ?S))) = map Some [''{}'', ''[1]'']"
    by blast
  from h1 h2 a b show ?thesis by blast
qed

section \<open>Properties of the router\<close>

lemma sortedScored_mset:
  "mset (sortedScored P filePath candidates) = mset (scoredServers P filePath candidates)"
  by (simp add: sortedScored_def mset_sort_by)

lemma sortedScored_sorted:
  "sorted_wrt (\<lambda>a b. s_score b < s_score a \<or> (s_score b = s_score a \<and> s_index a \<le> s_index b))
     (sortedScored P filePath candidates)"
  unfolding sortedScored_def
  by (rule sorted_sort_by) (auto simp: scoreOrder_def split: if_splits)

lemma map_fst_zip_upt: "map fst (zip xs [0..<length xs]) = xs"
  by (simp add: map_fst_zip)

lemma scoredServers_servers: "map s_server (scoredServers P filePath candidates) = candidates"
proof -
  have "map s_server (scoredServers P filePath candidates) = map fst (zip candidates [0..<length candidates])"
    by (simp add: scoredServers_def case_prod_beta comp_def)
  then show ?thesis by (simp add: map_fst_zip)
qed

lemma scoredServers_index: "map s_index (scoredServers P filePath candidates) = [0..<length candidates]"
proof -
  have "map s_index (scoredServers P filePath candidates) = map snd (zip candidates [0..<length candidates])"
    by (simp add: scoredServers_def case_prod_beta comp_def)
  then show ?thesis by (simp add: map_snd_zip)
qed

lemma scoredServers_score:
  "list_all (\<lambda>x. s_score x = scoreServer P (absoluteNormalized P filePath) (s_server x))
     (scoredServers P filePath candidates)"
  by (simp add: scoredServers_def list_all_iff case_prod_beta)

lemma order_mset: "mset (orderServerConfigsBySpecificity P filePath candidates) = mset candidates"
proof (cases "length candidates \<le> 1")
  case True
  then show ?thesis by (simp add: orderServerConfigsBySpecificity_def)
next
  case False
  have "mset (map s_server (sortedScored P filePath candidates)) =
        image_mset s_server (mset (sortedScored P filePath candidates))"
    by simp
  also have "\<dots> = image_mset s_server (mset (scoredServers P filePath candidates))"
    by (simp only: sortedScored_mset)
  also have "\<dots> = mset (map s_server (scoredServers P filePath candidates))"
    by simp
  also have "\<dots> = mset candidates"
    by (simp only: scoredServers_servers)
  finally show ?thesis using False by (simp add: orderServerConfigsBySpecificity_def)
qed

lemma score_unrooted:
  "rootDir server = None \<or> rootDir server = Some [] \<Longrightarrow> scoreServer P f server = 0"
  by (auto simp: scoreServer_def)

lemma score_inside:
  "rootDir server = Some dir \<Longrightarrow> dir \<noteq> [] \<Longrightarrow> isInside P (absoluteNormalized P dir) f \<Longrightarrow>
   scoreServer P f server = 10000 + int (length (absoluteNormalized P dir))"
  by (simp add: scoreServer_def Let_def)

lemma score_outside:
  "rootDir server = Some dir \<Longrightarrow> dir \<noteq> [] \<Longrightarrow> \<not> isInside P (absoluteNormalized P dir) f \<Longrightarrow>
   scoreServer P f server = - 1"
  by (simp add: scoreServer_def Let_def)

lemma splitSlash_nonempty: "splitSlash p \<noteq> []"
  by (induction p) (auto split: list.splits)

lemma splitSlash_no_slash: "seg \<in> set (splitSlash p) \<Longrightarrow> slash \<notin> set seg"
proof (induction p arbitrary: seg)
  case Nil
  then show ?case by simp
next
  case (Cons c cs)
  show ?case
  proof (cases "c = slash")
    case True
    with Cons show ?thesis by auto
  next
    case False
    obtain s ss where s: "splitSlash cs = s # ss"
      using splitSlash_nonempty [of cs] by (cases "splitSlash cs") auto
    with Cons.prems False have "seg = c # s \<or> seg \<in> set ss" by simp
    then show ?thesis
    proof
      assume "seg = c # s"
      moreover have "slash \<notin> set s" using Cons.IH [of s] s by simp
      ultimately show ?thesis using False by simp
    next
      assume "seg \<in> set ss"
      then show ?thesis using Cons.IH [of seg] s by simp
    qed
  qed
qed

lemma normalizeSegments_subset:
  "seg \<in> set (normalizeSegments allow res segs) \<Longrightarrow>
   seg \<in> set res \<or> (seg \<in> set segs \<and> seg \<noteq> [])"
proof (induction segs arbitrary: res)
  case Nil
  then show ?case by simp
next
  case (Cons s segs)
  show ?case
  proof (cases "s = [] \<or> s = dotSegment")
    case True
    with Cons.prems have "seg \<in> set (normalizeSegments allow res segs)" by auto
    from Cons.IH [OF this] show ?thesis by auto
  next
    case False
    note nontrivial = this
    show ?thesis
    proof (cases "s = dotdotSegment")
      case True
      consider (pop) "res \<noteq> [] \<and> last res \<noteq> dotdotSegment"
        | (keep) "\<not> (res \<noteq> [] \<and> last res \<noteq> dotdotSegment)" "allow"
        | (drop) "\<not> (res \<noteq> [] \<and> last res \<noteq> dotdotSegment)" "\<not> allow"
        by blast
      then show ?thesis
      proof cases
        case pop
        with Cons.prems True nontrivial
        have "seg \<in> set (normalizeSegments allow (butlast res) segs)" by simp
        from Cons.IH [OF this] show ?thesis by (auto dest: in_set_butlastD)
      next
        case keep
        with Cons.prems True nontrivial
        have "seg \<in> set (normalizeSegments allow (res @ [dotdotSegment]) segs)" by auto
        from Cons.IH [OF this] True nontrivial show ?thesis by auto
      next
        case drop
        with Cons.prems True nontrivial
        have "seg \<in> set (normalizeSegments allow res segs)" by auto
        from Cons.IH [OF this] show ?thesis by auto
      qed
    next
      case False
      with Cons.prems nontrivial
      have "seg \<in> set (normalizeSegments allow (res @ [s]) segs)" by simp
      from Cons.IH [OF this] nontrivial show ?thesis by auto
    qed
  qed
qed

lemma resolved_segment:
  assumes "seg \<in> set (posixResolvedSegments cwd p)"
  shows "seg \<noteq> [] \<and> slash \<notin> set seg"
proof -
  let ?q = "if posixIsAbsolute p then p else if p = [] then cwd else cwd @ slash # p"
  from assms have "seg \<in> set (normalizeSegments False [] (splitSlash ?q))"
    by (simp only: posixResolvedSegments_def)
  from normalizeSegments_subset [OF this]
  have "seg \<in> set (splitSlash ?q)" "seg \<noteq> []" by simp_all
  then show ?thesis using splitSlash_no_slash by blast
qed

lemma dropCommon_prefix: "dropCommon xs (xs @ ys) = ([], ys)"
  by (induction xs) simp_all

lemma dropCommon_not_prefix:
  "take (length xs) ys \<noteq> xs \<Longrightarrow> fst (dropCommon xs ys) \<noteq> []"
  by (induction xs ys rule: dropCommon.induct) (auto split: if_splits)

lemma joinSlash_Cons:
  "joinSlash (seg # segs) = (if segs = [] then seg else seg @ slash # joinSlash segs)"
  by (cases segs) simp_all

lemma dot_not_slash: "slash \<noteq> (46 :: code_unit)"
  by (simp add: slash_def)

lemma dotdot_js: "js ''..'' = [46, 46]"
  by (simp add: js_def)

lemma startsWith_dotdot_join:
  "startsWith (joinSlash (dotdotSegment # segs)) (js ''..'')"
  by (simp add: joinSlash_Cons startsWith_def dotdotSegment_def)

lemma join_first_segment:
  assumes "seg \<noteq> []" "slash \<notin> set seg" "\<not> startsWith seg (js ''..'')"
  shows "joinSlash (seg # segs) \<noteq> []"
    and "\<not> posixIsAbsolute (joinSlash (seg # segs))"
    and "\<not> startsWith (joinSlash (seg # segs)) (js ''..'')"
proof -
  from assms(1) obtain c cs where seg: "seg = c # cs" by (cases seg) auto
  with assms(2) have c: "c \<noteq> slash" by auto
  show "joinSlash (seg # segs) \<noteq> []" using seg by (simp add: joinSlash_Cons)
  show "\<not> posixIsAbsolute (joinSlash (seg # segs))"
    using seg c by (simp add: joinSlash_Cons posixIsAbsolute_def)
  show "\<not> startsWith (joinSlash (seg # segs)) (js ''..'')"
  proof (cases cs)
    case Nil
    then show ?thesis
      using seg dot_not_slash by (auto simp: joinSlash_Cons startsWith_def dotdot_js)
  next
    case (Cons d ds)
    with assms(3) seg show ?thesis
      by (auto simp: joinSlash_Cons startsWith_def dotdot_js)
  qed
qed

lemma posix_fields:
  "p_relative (posix cwd) = posixRelative cwd"
  "p_isAbsolute (posix cwd) = posixIsAbsolute"
  by (simp_all add: posix_def)

lemma posix_outside:
  assumes "take (length (posixResolvedSegments cwd root)) (posixResolvedSegments cwd target)
             \<noteq> posixResolvedSegments cwd root"
  shows "\<not> isInside (posix cwd) root target"
proof -
  let ?R = "posixResolvedSegments cwd root" and ?F = "posixResolvedSegments cwd target"
  from assms have ne: "root \<noteq> target" by auto
  obtain up down where ud: "dropCommon ?R ?F = (up, down)" by (cases "dropCommon ?R ?F")
  with dropCommon_not_prefix [OF assms] have "up \<noteq> []" by simp
  then obtain n where n: "length up = Suc n" by (cases up) auto
  have rel: "posixRelative cwd root target = joinSlash (dotdotSegment # replicate n dotdotSegment @ down)"
    using ne ud n by (simp add: posixRelative_def)
  have "startsWith (posixRelative cwd root target) (js ''..'')"
    unfolding rel by (rule startsWith_dotdot_join)
  moreover have "posixRelative cwd root target \<noteq> []"
    unfolding rel by (simp add: joinSlash_Cons dotdotSegment_def js_def)
  ultimately show ?thesis by (simp add: isInside_def posix_fields Let_def)
qed

lemma posix_same:
  assumes "posixResolvedSegments cwd target = posixResolvedSegments cwd root"
  shows "isInside (posix cwd) root target"
proof -
  have "dropCommon (posixResolvedSegments cwd root) (posixResolvedSegments cwd root) = ([], [])"
    using dropCommon_prefix [of "posixResolvedSegments cwd root" "[]"] by simp
  then have "posixRelative cwd root target = []"
    using assms by (simp add: posixRelative_def)
  then show ?thesis by (simp add: isInside_def posix_fields Let_def)
qed

lemma posix_below:
  assumes F: "posixResolvedSegments cwd target = posixResolvedSegments cwd root @ seg # below"
    and seg: "\<not> startsWith seg (js ''..'')"
  shows "isInside (posix cwd) root target"
proof -
  from F have ne: "root \<noteq> target" by auto
  have "seg \<in> set (posixResolvedSegments cwd target)" using F by simp
  then have s: "seg \<noteq> []" "slash \<notin> set seg" using resolved_segment by blast+
  have rel: "posixRelative cwd root target = joinSlash (seg # below)"
    using ne F by (simp add: posixRelative_def dropCommon_prefix)
  show ?thesis
    unfolding isInside_def posix_fields Let_def rel
    using join_first_segment [OF s seg, of below] by simp
qed

text \<open>
  C1 (as stated). For the file /a/b/c.ts, a backend rooted at /x (which does not contain
  the file) scores below the backend without a root, and is ordered after it: the
  backend with no explicit root does not score lowest.
\<close>

theorem unscoped_backend_not_lowest:
  "scoreServer (posix (js ''/home/u'')) (absoluteNormalized (posix (js ''/home/u'')) (js ''/a/b/c.ts''))
     (backend ''elsewhere'' (Some ''/x''))
     < scoreServer (posix (js ''/home/u'')) (absoluteNormalized (posix (js ''/home/u'')) (js ''/a/b/c.ts''))
         (backend ''global'' None)
   \<and> orderServerConfigsBySpecificity (posix (js ''/home/u'')) (js ''/a/b/c.ts'')
       [backend ''elsewhere'' (Some ''/x''), backend ''global'' None]
     = [backend ''global'' None, backend ''elsewhere'' (Some ''/x'')]"
  by code_simp

lemma scenario:
  "orderServerConfigsBySpecificity (posix (js ''/home/u'')) (js ''/a/b/c.ts'')
       [backend ''global'' None, backend ''scoped'' (Some ''/a/b'')]
     = [backend ''scoped'' (Some ''/a/b''), backend ''global'' None]"
  by code_simp

lemma order_sorted:
  "1 < length candidates \<Longrightarrow>
   orderServerConfigsBySpecificity P filePath candidates = map s_server (sortedScored P filePath candidates)"
  by (simp add: orderServerConfigsBySpecificity_def)

text \<open>
  C1 (amended). The ordered list is a rearrangement of the candidates; with more than
  one candidate it lists the candidates of the scored array sorted by descending score,
  equal scores in configuration order. The score of a backend without a root (absent
  or empty) is 0; with a root whose relative path to the file passes the containment
  test it is 10000 plus the length of the normalized root; with a root that fails the
  test it is -1, below the backends without a root. On POSIX paths the test fails when
  the segments of the root are not a prefix of the segments of the file, and passes
  when they are equal or when the file's next segment does not begin with two dots.
  For /a/b/c.ts, the backend rooted at /a/b is ordered before the backend without a
  root.
\<close>

theorem router_orders_by_specificity:
  "mset (orderServerConfigsBySpecificity P filePath candidates) = mset candidates
   \<and> (1 < length candidates \<longrightarrow>
        orderServerConfigsBySpecificity P filePath candidates
          = map s_server (sortedScored P filePath candidates))
   \<and> mset (sortedScored P filePath candidates) = mset (scoredServers P filePath candidates)
   \<and> map s_server (scoredServers P filePath candidates) = candidates
   \<and> map s_index (scoredServers P filePath candidates) = [0..<length candidates]
   \<and> list_all (\<lambda>x. s_score x = scoreServer P (absoluteNormalized P filePath) (s_server x))
         (scoredServers P filePath candidates)
   \<and> sorted_wrt
         (\<lambda>a b. s_score b < s_score a \<or> (s_score b = s_score a \<and> s_index a \<le> s_index b))
         (sortedScored P filePath candidates)
   \<and> (rootDir server = None \<or> rootDir server = Some [] \<longrightarrow> scoreServer P f server = 0)
   \<and> (rootDir server = Some dir \<and> dir \<noteq> [] \<and> isInside P (absoluteNormalized P dir) f \<longrightarrow>
        scoreServer P f server = 10000 + int (length (absoluteNormalized P dir)))
   \<and> (rootDir server = Some dir \<and> dir \<noteq> [] \<and> \<not> isInside P (absoluteNormalized P dir) f \<longrightarrow>
        scoreServer P f server = - 1)
   \<and> (take (length (posixResolvedSegments cwd root)) (posixResolvedSegments cwd target)
          \<noteq> posixResolvedSegments cwd root \<longrightarrow>
        \<not> isInside (posix cwd) root target)
   \<and> (posixResolvedSegments cwd target = posixResolvedSegments cwd root \<longrightarrow>
        isInside (posix cwd) root target)
   \<and> (posixResolvedSegments cwd target = posixResolvedSegments cwd root @ seg # below
        \<and> \<not> startsWith seg (js ''..'') \<longrightarrow>
        isInside (posix cwd) root target)
   \<and> orderServerConfigsBySpecificity (posix (js ''/home/u'')) (js ''/a/b/c.ts'')
       [backend ''global'' None, backend ''scoped'' (Some ''/a/b'')]
     = [backend ''scoped'' (Some ''/a/b''), backend ''global'' None]"
  using order_mset [of P filePath candidates] order_sorted [of candidates P filePath]
    sortedScored_mset [of P filePath candidates] scoredServers_servers [of P filePath candidates]
    scoredServers_index [of P filePath candidates] scoredServers_score [of P filePath candidates]
    sortedScored_sorted [of P filePath candidates]
    score_unrooted [of server P f] score_inside [of server dir P f] score_outside [of server dir P f]
    posix_outside [of cwd root target] posix_same [of cwd target root]
    posix_below [of cwd target root seg below] scenario
  by blast

theorem router_orders_by_specificity_witness:
  "1 < length [backend ''global'' None, backend ''scoped'' (Some ''/a/b'')]
   \<and> rootDir (backend ''global'' None) = None
   \<and> scoreServer (posix (js ''/home/u'')) (js ''/a/b/c.ts'') (backend ''global'' None) = 0
   \<and> rootDir (backend ''scoped'' (Some ''/a/b'')) = Some (js ''/a/b'')
   \<and> js ''/a/b'' \<noteq> []
   \<and> isInside (posix (js ''/home/u'')) (absoluteNormalized (posix (js ''/home/u'')) (js ''/a/b''))
         (js ''/a/b/c.ts'')
   \<and> scoreServer (posix (js ''/home/u'')) (js ''/a/b/c.ts'') (backend ''scoped'' (Some ''/a/b''))
       = 10000 + int (length (absoluteNormalized (posix (js ''/home/u'')) (js ''/a/b'')))
   \<and> rootDir (backend ''elsewhere'' (Some ''/x'')) = Some (js ''/x'')
   \<and> js ''/x'' \<noteq> []
   \<and> \<not> isInside (posix (js ''/home/u'')) (absoluteNormalized (posix (js ''/home/u'')) (js ''/x''))
         (js ''/a/b/c.ts'')
   \<and> scoreServer (posix (js ''/home/u'')) (js ''/a/b/c.ts'') (backend ''elsewhere'' (Some ''/x''))
       = - 1
   \<and> take (length (posixResolvedSegments (js ''/home/u'') (js ''/x'')))
         (posixResolvedSegments (js ''/home/u'') (js ''/a/b/c.ts''))
       \<noteq> posixResolvedSegments (js ''/home/u'') (js ''/x'')
   \<and> posixResolvedSegments (js ''/home/u'') (js ''/a/b/'')
       = posixResolvedSegments (js ''/home/u'') (js ''/a/b'')
   \<and> isInside (posix (js ''/home/u'')) (js ''/a/b'') (js ''/a/b/'')
   \<and> posixResolvedSegments (js ''/home/u'') (js ''/a/b/c.ts'')
       = posixResolvedSegments (js ''/home/u'') (js ''/a/b'') @ js ''c.ts'' # []
   \<and> \<not> startsWith (js ''c.ts'') (js ''..'')
   \<and> isInside (posix (js ''/home/u'')) (js ''/a/b'') (js ''/a/b/c.ts'')"
proof -
  let ?P = "posix (js ''/home/u'')"
  have h1: "1 < length [backend ''global'' None, backend ''scoped'' (Some ''/a/b'')]"
    by simp
  have h2: "rootDir (backend ''global'' None) = None"
    by (simp add: backend_def)
  have h3: "rootDir (backend ''scoped'' (Some ''/a/b'')) = Some (js ''/a/b'')" "js ''/a/b'' \<noteq> []"
    by (simp_all add: backend_def js_def)
  have h4: "isInside ?P (absoluteNormalized ?P (js ''/a/b'')) (js ''/a/b/c.ts'')"
    by code_simp
  have h5: "rootDir (backend ''elsewhere'' (Some ''/x'')) = Some (js ''/x'')" "js ''/x'' \<noteq> []"
    by (simp_all add: backend_def js_def)
  have h6: "\<not> isInside ?P (absoluteNormalized ?P (js ''/x'')) (js ''/a/b/c.ts'')"
    by code_simp
  have h7: "take (length (posixResolvedSegments (js ''/home/u'') (js ''/x'')))
         (posixResolvedSegments (js ''/home/u'') (js ''/a/b/c.ts''))
       \<noteq> posixResolvedSegments (js ''/home/u'') (js ''/x'')"
    by code_simp
  have h8: "posixResolvedSegments (js ''/home/u'') (js ''/a/b/'')
       = posixResolvedSegments (js ''/home/u'') (js ''/a/b'')"
    by code_simp
  have h9: "posixResolvedSegments (js ''/home/u'') (js ''/a/b/c.ts'')
       = posixResolvedSegments (js ''/home/u'') (js ''/a/b'') @ js ''c.ts'' # []"
    by code_simp
  have h10: "\<not> startsWith (js ''c.ts'') (js ''..'')"
    by code_simp
  note global = router_orders_by_specificity
    [where server = "backend ''global'' None" and P = ?P and f = "js ''/a/b/c.ts''"]
  note scoped = router_orders_by_specificity
    [where server = "backend ''scoped'' (Some ''/a/b'')" and dir = "js ''/a/b''" and P = ?P
       and f = "js ''/a/b/c.ts''" and cwd = "js ''/home/u''" and root = "js ''/a/b''"
       and target = "js ''/a/b/c.ts''" and seg = "js ''c.ts''" and below = "[]"]
  note elsewhere = router_orders_by_specificity
    [where server = "backend ''elsewhere'' (Some ''/x'')" and dir = "js ''/x''" and P = ?P
       and f = "js ''/a/b/c.ts''" and cwd = "js ''/home/u''" and root = "js ''/x''"
       and target = "js ''/a/b/c.ts''"]
  note same = router_orders_by_specificity
    [where cwd = "js ''/home/u''" and root = "js ''/a/b''" and target = "js ''/a/b/''"]
  from global h2
  have c1: "scoreServer ?P (js ''/a/b/c.ts'') (backend ''global'' None) = 0"
    by blast
  from scoped h3 h4
  have c2: "scoreServer ?P (js ''/a/b/c.ts'') (backend ''scoped'' (Some ''/a/b''))
       = 10000 + int (length (absoluteNormalized ?P (js ''/a/b'')))"
    by blast
  from elsewhere h5 h6
  have c3: "scoreServer ?P (js ''/a/b/c.ts'') (backend ''elsewhere'' (Some ''/x'')) = - 1"
    by blast
  from same h8 have c4: "isInside ?P (js ''/a/b'') (js ''/a/b/'')"
    by blast
  from scoped h9 h10 have c5: "isInside ?P (js ''/a/b'') (js ''/a/b/c.ts'')"
    by blast
  from h1 h2 h3 h4 h5 h6 h7 h8 h9 h10 c1 c2 c3 c4 c5 show ?thesis
    by blast
qed

section \<open>Properties of rename by symbol name\<close>

lemma ensureFileOpen_sent:
  "ensureFileOpen world i session = Inr session1 \<Longrightarrow>
   list_all (\<lambda>w. \<not> isRenameRequest w) (sent session) \<Longrightarrow>
   list_all (\<lambda>w. \<not> isRenameRequest w) (sent session1)"
  by (auto simp: ensureFileOpen_def split: if_splits)

lemma documentSymbolsLoop_no_rename:
  "documentSymbolsLoop world bs session = (r, session') \<Longrightarrow>
   list_all (\<lambda>w. \<not> isRenameRequest w) (sent session) \<Longrightarrow>
   list_all (\<lambda>w. \<not> isRenameRequest w) (sent session')"
proof (induction bs arbitrary: session)
  case Nil
  then show ?case by simp
next
  case (Cons ib rest)
  obtain i b where ib: "ib = (i, b)" by (cases ib)
  show ?case
  proof (cases "b_starts b \<and> serverAdvertisedCapability (b_state b) (requestCapability DocumentSymbol)")
    case False
    with Cons.prems ib have "documentSymbolsLoop world rest session = (r, session')"
      by (auto split: if_splits)
    from Cons.IH [OF this Cons.prems(2)] show ?thesis .
  next
    case True
    show ?thesis
    proof (cases "ensureFileOpen world i session")
      case (Inl e)
      with Cons.prems ib True show ?thesis by simp
    next
      case (Inr session1)
      let ?s2 = "session1\<lparr> sent := sent session1 @
                   [Request i DocumentSymbol (requestTimeoutMs DocumentSymbol)] \<rparr>"
      have s2: "list_all (\<lambda>w. \<not> isRenameRequest w) (sent ?s2)"
        using ensureFileOpen_sent [OF Inr Cons.prems(2)] by simp
      show ?thesis
      proof (cases "\<exists>entries. b_documentSymbol b = Result (Some entries)")
        case True
        then obtain entries where "b_documentSymbol b = Result (Some entries)" by blast
        with Cons.prems(1) ib \<open>b_starts b \<and> _\<close> Inr have "session' = ?s2"
          by (simp add: Let_def)
        with s2 show ?thesis by simp
      next
        case False
        with Cons.prems(1) ib \<open>b_starts b \<and> _\<close> Inr
        have "documentSymbolsLoop world rest ?s2 = (r, session')"
          by (auto simp: Let_def split: reply.splits option.splits)
        from Cons.IH [OF this s2] show ?thesis .
      qed
    qed
  qed
qed

lemma findSymbolsByName_no_rename:
  assumes "findSymbolsByName trimLower world session nm kind = (r, session1)"
    and "list_all (\<lambda>w. \<not> isRenameRequest w) (sent session)"
  shows "list_all (\<lambda>w. \<not> isRenameRequest w) (sent session1)"
proof -
  obtain d s where d: "getDocumentSymbols world session = (d, s)"
    by (cases "getDocumentSymbols world session")
  with assms(1) have s: "s = session1"
    by (auto simp: findSymbolsByName_def split: sum.splits)
  show ?thesis
  proof (cases "length (w_backends world) = 0")
    case True
    with d s assms(2) show ?thesis by (simp add: getDocumentSymbols_def)
  next
    case False
    with d s have "documentSymbolsLoop world (indexed (w_backends world)) session = (d, session1)"
      by (simp add: getDocumentSymbols_def)
    from documentSymbolsLoop_no_rename [OF this assms(2)] show ?thesis .
  qed
qed

lemma handleRenameSymbol_ambiguous:
  assumes "findSymbolsByName trimLower world session (symbol_name a) (symbol_kind a)
             = (Inr matches, session1)"
    and "1 < length matches"
  shows "handleRenameSymbol ops trimLower world session a =
           (TextResponse (ambiguityText ops (file_path a) (symbol_name a) matches), session1)"
  using assms by (auto simp: handleRenameSymbol_def)

lemma of_char_digitChar_unit:
  "d < 10 \<Longrightarrow> (of_char (digitChar d) :: code_unit) = of_nat (48 + d)"
proof -
  assume d: "d < 10"
  have "(of_char (digitChar d) :: code_unit) = of_nat (of_char (digitChar d))"
    by (simp only: of_nat_of_char)
  also have "(of_char (digitChar d) :: nat) = 48 + d"
    using d by (simp add: digitChar_def)
  finally show ?thesis .
qed

lemma js_append: "js (xs @ ys) = js xs @ js ys"
  by (simp add: js_def)

lemmas dispatch_eval =
  handleRenameSymbol_def findSymbolsByName_def getDocumentSymbols_def fooWorld_def fooArgs_def
  answeringBackend_def indexed_def ensureFileOpen_def newSession_def symbolMatches_def
  symbolKindFromString_def pushMatch_def serverAdvertisedCapability_def stateWithCapabilities_def
  Let_def pos_def

lemma foo_lookup:
  "findSymbolsByName (\<lambda>s. s) fooWorld newSession (symbol_name fooArgs) (symbol_kind fooArgs)
     = (Inr [\<lparr> m_name = js ''Foo'', m_kind = 5, m_position = pos 0 6 \<rparr>,
             \<lparr> m_name = js ''Foo'', m_kind = 12, m_position = pos 4 9 \<rparr>],
        \<lparr> opened = [0], sent = [DidOpen 0, Request 0 DocumentSymbol 30000] \<rparr>)"
  by (simp add: dispatch_eval upt_conv_Cons)

lemma foo_line1:
  "candidateLine ops (js ''/p/a.ts'') \<lparr> m_name = js ''Foo'', m_kind = 5, m_position = pos 0 6 \<rparr>
     = js ''/p/a.ts:1:7 (class)''"
  by (simp add: candidateLine_def numberToString_def plusOne_def isSafeInteger_def decimalDigits_def
      symbolKindToString_def kindNames_def pos_def
      decimal_small of_char_digitChar_unit js_def)

lemma foo_line2:
  "candidateLine ops (js ''/p/a.ts'') \<lparr> m_name = js ''Foo'', m_kind = 12, m_position = pos 4 9 \<rparr>
     = js ''/p/a.ts:5:10 (function)''"
  by (simp add: candidateLine_def numberToString_def plusOne_def isSafeInteger_def decimalDigits_def
      symbolKindToString_def kindNames_def pos_def
      decimal_small decimal_large js_append of_char_digitChar_unit js_def)

lemma foo_scenario:
  "handleRenameSymbol ops (\<lambda>s. s) fooWorld newSession fooArgs =
     (TextResponse (ambiguityText ops (js ''/p/a.ts'') (js ''Foo'')
        [\<lparr> m_name = js ''Foo'', m_kind = 5, m_position = pos 0 6 \<rparr>,
         \<lparr> m_name = js ''Foo'', m_kind = 12, m_position = pos 4 9 \<rparr>]),
      \<lparr> opened = [0], sent = [DidOpen 0, Request 0 DocumentSymbol 30000] \<rparr>)"
proof -
  have args: "file_path fooArgs = js ''/p/a.ts''" "symbol_name fooArgs = js ''Foo''"
    by (simp_all add: fooArgs_def)
  show ?thesis
    using handleRenameSymbol_ambiguous [OF foo_lookup] by (simp add: args)
qed

text \<open>
  A kind hint that names a member inherited from \<open>Object.prototype\<close> filters out every
  symbol, so the rename answers that no symbol was found.
\<close>

lemma walk_inherited_hint:
  "walkDocumentSymbol symbolName InheritedMember symbol = []"
  by (induction symbol) (simp add: pushMatch_def)

lemma inherited_hint_matches_nothing:
  "symbolMatches symbolName InheritedMember docs = []"
proof -
  have "entryMatches symbolName InheritedMember entry = []" for entry
    by (cases entry) (simp_all add: pushMatch_def walk_inherited_hint)
  then show ?thesis by (simp add: symbolMatches_def)
qed

lemma proto_hint_is_inherited:
  "symbolKindFromString (\<lambda>s. s) (Some (js ''__proto__'')) = InheritedMember"
  by code_simp

lemma inherited_hint_no_symbols:
  assumes "symbolKindFromString trimLower (symbol_kind a) = InheritedMember"
    and "getDocumentSymbols world session = (Inr docs, session1)"
  shows "handleRenameSymbol ops trimLower world session a =
           (TextResponse (noSymbolsText (file_path a) (symbol_name a)), session1)"
  using assms
  by (simp add: handleRenameSymbol_def findSymbolsByName_def inherited_hint_matches_nothing)

text \<open>
  C6 (as stated). In the scenario the rename is answered with the two candidates, but
  not before the backend was contacted: the document was opened on it and its document
  symbols were requested, which is where the candidates come from.
\<close>

theorem ambiguous_rename_contacts_backend:
  "fst (handleRenameSymbol unusedNumberOps (\<lambda>s. s) fooWorld newSession fooArgs)
     = TextResponse (ambiguityText unusedNumberOps (js ''/p/a.ts'') (js ''Foo'')
         [\<lparr> m_name = js ''Foo'', m_kind = 5, m_position = pos 0 6 \<rparr>,
          \<lparr> m_name = js ''Foo'', m_kind = 12, m_position = pos 4 9 \<rparr>])
   \<and> sent (snd (handleRenameSymbol unusedNumberOps (\<lambda>s. s) fooWorld newSession fooArgs))
       = [DidOpen 0, Request 0 DocumentSymbol 30000]
   \<and> sent (snd (handleRenameSymbol unusedNumberOps (\<lambda>s. s) fooWorld newSession fooArgs)) \<noteq> []"
  by (simp add: foo_scenario)

text \<open>
  C6 (amended). When matching the symbol name against the document symbols obtained
  from the backends yields more than one match, \<open>handleRenameSymbol\<close> answers with the
  text that lists one candidate line (location and kind) per match, and the session is
  the one the symbol lookup left: if no rename request had been sent before the call,
  none has been sent after it. For a class \<open>Foo\<close> and a function \<open>Foo\<close> without a kind
  hint, both locations are listed, and the backend has received a \<open>didOpen\<close> and a
  document-symbol request only.
\<close>

theorem ambiguous_rename_issues_no_rename_request:
  "(findSymbolsByName trimLower world session (symbol_name a) (symbol_kind a)
       = (Inr matches, session1) \<and> 1 < length matches \<longrightarrow>
      handleRenameSymbol ops trimLower world session a
        = (TextResponse (ambiguityText ops (file_path a) (symbol_name a) matches), session1)
      \<and> (list_all (\<lambda>w. \<not> isRenameRequest w) (sent session) \<longrightarrow>
           list_all (\<lambda>w. \<not> isRenameRequest w) (sent session1)))
   \<and> ambiguityText ops path nm matches
       = js ''Multiple symbols match '' @ [dquote] @ nm @ [dquote]
         @ js ''. Please narrow with symbol_kind.'' @ [newline, newline] @ js ''Candidates:''
         @ [newline] @ joinLines (map (candidateLine ops path) matches)
   \<and> handleRenameSymbol ops (\<lambda>s. s) fooWorld newSession fooArgs =
       (TextResponse (ambiguityText ops (js ''/p/a.ts'') (js ''Foo'')
          [\<lparr> m_name = js ''Foo'', m_kind = 5, m_position = pos 0 6 \<rparr>,
           \<lparr> m_name = js ''Foo'', m_kind = 12, m_position = pos 4 9 \<rparr>]),
        \<lparr> opened = [0], sent = [DidOpen 0, Request 0 DocumentSymbol 30000] \<rparr>)
   \<and> candidateLine ops (js ''/p/a.ts'') \<lparr> m_name = js ''Foo'', m_kind = 5, m_position = pos 0 6 \<rparr>
       = js ''/p/a.ts:1:7 (class)''
   \<and> candidateLine ops (js ''/p/a.ts'') \<lparr> m_name = js ''Foo'', m_kind = 12, m_position = pos 4 9 \<rparr>
       = js ''/p/a.ts:5:10 (function)''"
proof -
  have one: "findSymbolsByName trimLower world session (symbol_name a) (symbol_kind a)
       = (Inr matches, session1) \<and> 1 < length matches \<longrightarrow>
      handleRenameSymbol ops trimLower world session a
        = (TextResponse (ambiguityText ops (file_path a) (symbol_name a) matches), session1)
      \<and> (list_all (\<lambda>w. \<not> isRenameRequest w) (sent session) \<longrightarrow>
           list_all (\<lambda>w. \<not> isRenameRequest w) (sent session1))"
    using handleRenameSymbol_ambiguous [of trimLower world session a matches session1 ops]
      findSymbolsByName_no_rename [of trimLower world session "symbol_name a" "symbol_kind a"
        "Inr matches" session1]
    by blast
  have two: "ambiguityText ops path nm matches
       = js ''Multiple symbols match '' @ [dquote] @ nm @ [dquote]
         @ js ''. Please narrow with symbol_kind.'' @ [newline, newline] @ js ''Candidates:''
         @ [newline] @ joinLines (map (candidateLine ops path) matches)"
    by (simp only: ambiguityText_def)
  from one two foo_scenario foo_line1 foo_line2 show ?thesis by (intro conjI)
qed

theorem ambiguous_rename_issues_no_rename_request_witness:
  "findSymbolsByName (\<lambda>s. s) fooWorld newSession (symbol_name fooArgs) (symbol_kind fooArgs)
     = (Inr [\<lparr> m_name = js ''Foo'', m_kind = 5, m_position = pos 0 6 \<rparr>,
             \<lparr> m_name = js ''Foo'', m_kind = 12, m_position = pos 4 9 \<rparr>],
        \<lparr> opened = [0], sent = [DidOpen 0, Request 0 DocumentSymbol 30000] \<rparr>)
   \<and> 1 < length [\<lparr> m_name = js ''Foo'', m_kind = 5, m_position = pos 0 6 \<rparr>,
                  \<lparr> m_name = js ''Foo'', m_kind = 12, m_position = pos 4 9 \<rparr>]
   \<and> list_all (\<lambda>w. \<not> isRenameRequest w) (sent newSession)
   \<and> handleRenameSymbol unusedNumberOps (\<lambda>s. s) fooWorld newSession fooArgs
       = (TextResponse (ambiguityText unusedNumberOps (file_path fooArgs) (symbol_name fooArgs)
            [\<lparr> m_name = js ''Foo'', m_kind = 5, m_position = pos 0 6 \<rparr>,
             \<lparr> m_name = js ''Foo'', m_kind = 12, m_position = pos 4 9 \<rparr>]),
          \<lparr> opened = [0], sent = [DidOpen 0, Request 0 DocumentSymbol 30000] \<rparr>)
   \<and> list_all (\<lambda>w. \<not> isRenameRequest w)
         (sent \<lparr> opened = [0], sent = [DidOpen 0, Request 0 DocumentSymbol 30000] \<rparr>)"
proof -
  let ?ms = "[\<lparr> m_name = js ''Foo'', m_kind = 5, m_position = pos 0 6 \<rparr>,
              \<lparr> m_name = js ''Foo'', m_kind = 12, m_position = pos 4 9 \<rparr>]"
  let ?s1 = "\<lparr> opened = [0], sent = [DidOpen 0, Request 0 DocumentSymbol 30000] \<rparr>"
  note h1 = foo_lookup
  have h2: "1 < length ?ms" by simp
  have h3: "list_all (\<lambda>w. \<not> isRenameRequest w) (sent newSession)"
    by (simp add: newSession_def)
  note t = ambiguous_rename_issues_no_rename_request
    [where ops = unusedNumberOps and trimLower = "\<lambda>s. s" and world = fooWorld and session = newSession and a = fooArgs
       and matches = ?ms and ?session1.0 = ?s1]
  from t h1 h2 have c1: "handleRenameSymbol unusedNumberOps (\<lambda>s. s) fooWorld newSession fooArgs
       = (TextResponse (ambiguityText unusedNumberOps (file_path fooArgs) (symbol_name fooArgs) ?ms), ?s1)"
    by blast
  from t h1 h2 h3 have c2: "list_all (\<lambda>w. \<not> isRenameRequest w) (sent ?s1)"
    by blast
  from h1 h2 h3 c1 c2 show ?thesis by blast
qed

section \<open>Properties of the process supervisor\<close>

lemma key_eq_triple:
  "makeServerKey P s r = makeServerKey P s' r'
     \<longleftrightarrow> uniquenessTriple P (s, r) = uniquenessTriple P (s', r')"
  by (auto simp: makeServerKey_def uniquenessTriple_def)



lemma startState_Some:
  "startState s n = Some x \<Longrightarrow> n < length (starts s) \<and> snd (starts s ! n) = x"
  by (auto simp: startState_def split: if_splits)



































end
